theory Spec2Isabelle
  imports Complex_Main
begin

section \<open>Phaser.Pointer: data model\<close>

text \<open>
  A shallow embedding of \<^verbatim>\<open>src/input/Pointer.js\<close>. JavaScript numbers that hold
  timestamps, rates, counters, priorities and render orders are modelled as \<open>int\<close>
  (integer-valued doubles are exact below \<open>2^53\<close>); coordinates, which are scaled by
  a possibly fractional factor, are modelled as \<open>real\<close>. \<^verbatim>\<open>null\<close> and
  \<^verbatim>\<open>undefined\<close> are both \<open>None\<close>.

  Objects are mutable and shared in the source. An interactive object (a
  \<^verbatim>\<open>Phaser.InputHandler\<close>) is named by its identity \<open>objid\<close>; the game state holds
  the store \<open>handlers\<close> from identities to object states, and \<^verbatim>\<open>===\<close> on objects is
  equality of identities.
\<close>

type_synonym objid = nat

record point =
  pt_x :: real
  pt_y :: real

record circle_shape =
  circle_x :: real
  circle_y :: real
  diameter :: real

text \<open>The three values of \<^verbatim>\<open>Phaser.Input.multiInputOverride\<close>.\<close>

datatype multiInput = MOUSE_OVERRIDES_TOUCH | TOUCH_OVERRIDES_MOUSE | MOUSE_TOUCH_COMBINE

text \<open>
  Every call a pointer makes to a collaborator outside \<^verbatim>\<open>Pointer.js\<close> is recorded,
  in program order, in the \<open>trace\<close> of the game state. Every such call also passes the
  pointer itself; that argument is left out. The collaborators are assumed not to write
  the pointer's fields or the modelled fields of the game state while they run.
\<close>

datatype call =
    OnDown
  | OnUp
  | OnTap bool
  | OnHold
  | ResetSpeed real real
  | PreventDefault
  | MoveCallback nat real real bool
  | CheckPointerDown objid bool
  | CheckPointerOver objid bool
  | TouchedHandler objid
  | PointerOverHandler objid
  | PointerOutHandler objid
  | ReleasedHandler objid
  | CallAllReleasedHandler
  | UpdateHandler objid

text \<open>
  The state of one interactive object, as far as the pointer reads or writes it.
  \<open>renderOrderID\<close> is \<^verbatim>\<open>sprite._cache[3]\<close>. \<open>pixelPerfect\<close> says that the object
  requires the exact test. \<open>checkPointerDown\<close> and \<open>checkPointerOver\<close> give, for each
  value of the \<^verbatim>\<open>fastTest\<close> argument, what the object's test returns to the pointer
  during the current operation; \<open>updateResult\<close> is \<open>False\<close> exactly when the object's
  \<^verbatim>\<open>update(pointer)\<close> returns \<^verbatim>\<open>false\<close>.
\<close>

record inputHandler =
  priorityID :: int
  renderOrderID :: int
  pixelPerfect :: bool
  checked :: bool
  isDragged :: bool
  checkPointerDown :: "bool \<Rightarrow> bool"
  checkPointerOver :: "bool \<Rightarrow> bool"
  updateResult :: bool

text \<open>
  The scratch properties \<^verbatim>\<open>_highestRenderOrderID\<close>, \<^verbatim>\<open>_highestInputPriorityID\<close> and
  \<^verbatim>\<open>_highestRenderObject\<close>. The constructor does not create them; they exist on a
  pointer only once \<^verbatim>\<open>processInteractiveObjects\<close> has run.
\<close>

record best =
  highestRenderOrderID :: int
  highestInputPriorityID :: int
  highestRenderObject :: "objid option"

record pointer =
  ptr_id :: int
  ptr_exists :: bool
  ptr_identifier :: "int option"
  pointerId :: "int option"
  target :: "nat option"
  button :: "int option"
  holdSent :: bool
  history :: "point list"
  nextDrop :: int
  stateReset :: bool
  withinGame :: bool
  clientX :: real
  clientY :: real
  pageX :: real
  pageY :: real
  screenX :: real
  screenY :: real
  rawMovementX :: real
  rawMovementY :: real
  movementX :: real
  movementY :: real
  ptr_x :: real
  ptr_y :: real
  isMouse :: bool
  isDown :: bool
  isUp :: bool
  timeDown :: int
  timeUp :: int
  previousTapTime :: int
  totalTouches :: int
  msSinceLastClick :: int
  targetObject :: "objid option"
  active :: bool
  dirty :: bool
  position :: point
  positionDown :: point
  positionUp :: point
  circle :: circle_shape
  highest :: "best option"

text \<open>
  What the pointer reads and writes of \<^verbatim>\<open>this.game\<close>: the clock, the pause flag, the
  fields of \<^verbatim>\<open>game.input\<close>, the stage offset, the bounds test of the scale manager and
  the camera. \<open>interactiveItems\<close> is the traversal order of \<^verbatim>\<open>game.input.interactiveItems\<close>,
  a set that holds an object at most once (the claims that need it assume \<open>distinct\<close>);
  \<open>moveCallbacks\<close> lists the registered move callbacks by a name each.
\<close>

record game =
  now :: int
  paused :: bool
  multiInputOverride :: multiInput
  currentPointers :: int
  input_x :: real
  input_y :: real
  input_position :: point
  input_circle :: circle_shape
  activePointer :: "int option"
  pollLocked :: bool
  mouse_locked :: bool
  input_scale :: point
  stage_offset :: point
  bounds_contains :: "real \<Rightarrow> real \<Rightarrow> bool"
  camera_x :: real
  camera_y :: real
  interactiveItems :: "objid list"
  handlers :: "objid \<Rightarrow> inputHandler"
  moveCallbacks :: "nat list"
  holdRate :: int
  tapRate :: int
  doubleTapRate :: int
  justPressedRate :: int
  justReleasedRate :: int
  recordPointerHistory :: bool
  recordRate :: int
  recordLimit :: int
  trace :: "call list"

text \<open>The DOM event, as far as the pointer reads it.\<close>

record dom_event =
  ev_pointerId :: "int option"
  ev_identifier :: "int option"
  ev_target :: "nat option"
  ev_button :: "int option"
  ev_clientX :: real
  ev_clientY :: real
  ev_pageX :: real
  ev_pageY :: real
  ev_screenX :: real
  ev_screenY :: real
  ev_movementX :: "real option"
  ev_mozMovementX :: "real option"
  ev_webkitMovementX :: "real option"
  ev_movementY :: "real option"
  ev_mozMovementY :: "real option"
  ev_webkitMovementY :: "real option"

section \<open>Constants and the constructor\<close>

definition Number_MAX_SAFE_INTEGER :: int where
  "Number_MAX_SAFE_INTEGER = 2 ^ 53 - 1"

definition Number_MAX_VALUE :: int where
  "Number_MAX_VALUE = (2 ^ 53 - 1) * 2 ^ 971"

definition Pointer :: "int \<Rightarrow> pointer" where
  "Pointer n =
     \<lparr> ptr_id = n, ptr_exists = True, ptr_identifier = Some 0, pointerId = None,
       target = None, button = None, holdSent = False, history = [], nextDrop = 0,
       stateReset = False, withinGame = False,
       clientX = -1, clientY = -1, pageX = -1, pageY = -1, screenX = -1, screenY = -1,
       rawMovementX = 0, rawMovementY = 0, movementX = 0, movementY = 0,
       ptr_x = -1, ptr_y = -1, isMouse = (n = 0), isDown = False, isUp = True,
       timeDown = 0, timeUp = 0, previousTapTime = 0, totalTouches = 0,
       msSinceLastClick = Number_MAX_VALUE, targetObject = None, active = False,
       dirty = False, position = \<lparr>pt_x = 0, pt_y = 0\<rparr>,
       positionDown = \<lparr>pt_x = 0, pt_y = 0\<rparr>, positionUp = \<lparr>pt_x = 0, pt_y = 0\<rparr>,
       circle = \<lparr>circle_x = 0, circle_y = 0, diameter = 44\<rparr>, highest = None \<rparr>"

section \<open>Helpers of the embedding\<close>

definition emit :: "call \<Rightarrow> game \<Rightarrow> game" where
  "emit c g = g\<lparr>trace := trace g @ [c]\<rparr>"

text \<open>
  The test that guards every dispatch of a shared signal; the source writes it out in
  \<^verbatim>\<open>start\<close>, \<^verbatim>\<open>update\<close>, \<^verbatim>\<open>move\<close> and \<^verbatim>\<open>stop\<close>.
\<close>

definition inputGate :: "game \<Rightarrow> bool" where
  "inputGate g =
     (multiInputOverride g = MOUSE_OVERRIDES_TOUCH \<or>
      multiInputOverride g = MOUSE_TOUCH_COMBINE \<or>
      (multiInputOverride g = TOUCH_OVERRIDES_MOUSE \<and> currentPointers g = 0))"

text \<open>\<^verbatim>\<open>a || b\<close> on optional numbers: the first operand unless it is falsy.\<close>

definition orElse :: "real option \<Rightarrow> real option \<Rightarrow> real option" where
  "orElse a b = (case a of None \<Rightarrow> b | Some v \<Rightarrow> if v = 0 then b else Some v)"

definition orZero :: "real option \<Rightarrow> real" where
  "orZero a = (case a of None \<Rightarrow> 0 | Some v \<Rightarrow> v)"

text \<open>The getter \<^verbatim>\<open>duration\<close>.\<close>

definition duration :: "pointer \<Rightarrow> game \<Rightarrow> int" where
  "duration p g = (if isUp p then -1 else now g - timeDown p)"

definition worldX :: "pointer \<Rightarrow> game \<Rightarrow> real" where
  "worldX p g = camera_x g + ptr_x p"

definition worldY :: "pointer \<Rightarrow> game \<Rightarrow> real" where
  "worldY p g = camera_y g + ptr_y p"

section \<open>The hit-test resolver\<close>

text \<open>
  Modelled from the spec: \<^verbatim>\<open>InputHandler.validForInput\<close> is called by
  \<^verbatim>\<open>processInteractiveObjects\<close> but is not part of \<^verbatim>\<open>Pointer.js\<close>. The spec
  (section 4.2) says that a candidate that requires the exact test is not eligible when
  pixel-perfect objects are excluded, and that a candidate can displace the current best
  only if its priority is strictly higher, or equal with a render-order value numerically
  lower than the current best's.
\<close>

definition validForInput :: "inputHandler \<Rightarrow> int \<Rightarrow> int \<Rightarrow> bool \<Rightarrow> bool" where
  "validForInput h highestID highestRenderID includePixelPerfect =
     (if \<not> includePixelPerfect \<and> pixelPerfect h then False
      else highestID < priorityID h \<or>
           (priorityID h = highestID \<and> renderOrderID h < highestRenderID))"

text \<open>
  The condition
  \<^verbatim>\<open>(fromClick && node.checkPointerDown(this, fastTest)) || (!fromClick && node.checkPointerOver(this, fastTest))\<close>
  and the one call it makes: \<^verbatim>\<open>&&\<close> and \<^verbatim>\<open>||\<close> short-circuit, so exactly one of
  the two tests is called.
\<close>

definition overlaps :: "bool \<Rightarrow> bool \<Rightarrow> inputHandler \<Rightarrow> bool" where
  "overlaps fromClick fastTest h =
     ((fromClick \<and> checkPointerDown h fastTest) \<or> (\<not> fromClick \<and> checkPointerOver h fastTest))"

definition testCall :: "bool \<Rightarrow> bool \<Rightarrow> objid \<Rightarrow> call" where
  "testCall fromClick fastTest i =
     (if fromClick then CheckPointerDown i fastTest else CheckPointerOver i fastTest)"

text \<open>
  Modelled from the spec: \<^verbatim>\<open>interactiveItems.setAll('checked', v)\<close> belongs to the
  item set, which is not part of \<^verbatim>\<open>Pointer.js\<close>. The spec (section 4.2) says
  that the scratch flag of every candidate is cleared.
\<close>

definition setAll_checked :: "bool \<Rightarrow> game \<Rightarrow> game" where
  "setAll_checked v g =
     g\<lparr>handlers := (\<lambda>i. if i \<in> set (interactiveItems g)
                         then (handlers g i)\<lparr>checked := v\<rparr> else handlers g i)\<rparr>"

text \<open>
  Modelled from the spec: \<^verbatim>\<open>interactiveItems.callAll('_releasedHandler', this)\<close>
  belongs to the item set, which is not part of \<^verbatim>\<open>Pointer.js\<close>. The spec
  (section 4.1) says that every registered candidate is notified of the release and
  gives no order for it, so the broadcast is recorded as the one call the pointer makes.
\<close>

definition callAll_releasedHandler :: "game \<Rightarrow> game" where
  "callAll_releasedHandler g = emit CallAllReleasedHandler g"

text \<open>
  The body of the first \<^verbatim>\<open>do ... while\<close> loop for one node (lines 481 to 492), on
  the scratch properties and the game state.
\<close>

definition visit1 :: "bool \<Rightarrow> objid \<Rightarrow> best \<times> game \<Rightarrow> best \<times> game" where
  "visit1 fromClick i s =
     (case s of (b, g) \<Rightarrow>
        if validForInput (handlers g i) (highestInputPriorityID b) (highestRenderOrderID b) False
        then
          (let g1 = g\<lparr>handlers := (handlers g)(i := (handlers g i)\<lparr>checked := True\<rparr>)\<rparr>;
               g2 = emit (testCall fromClick True i) g1
           in if overlaps fromClick True (handlers g2 i)
              then (\<lparr>highestRenderOrderID = renderOrderID (handlers g2 i),
                     highestInputPriorityID = priorityID (handlers g2 i),
                     highestRenderObject = Some i\<rparr>, g2)
              else (b, g2))
        else (b, g))"

text \<open>The body of the second loop for one node (lines 504 to 512).\<close>

definition visit2 :: "bool \<Rightarrow> objid \<Rightarrow> best \<times> game \<Rightarrow> best \<times> game" where
  "visit2 fromClick i s =
     (case s of (b, g) \<Rightarrow>
        if \<not> checked (handlers g i) \<and>
           validForInput (handlers g i) (highestInputPriorityID b) (highestRenderOrderID b) True
        then
          (let g2 = emit (testCall fromClick False i) g
           in if overlaps fromClick False (handlers g2 i)
              then (\<lparr>highestRenderOrderID = renderOrderID (handlers g2 i),
                     highestInputPriorityID = priorityID (handlers g2 i),
                     highestRenderObject = Some i\<rparr>, g2)
              else (b, g2))
        else (b, g))"

text \<open>
  Modelled from the spec: the traversal \<^verbatim>\<open>first\<close>, \<^verbatim>\<open>next\<close>, ... belongs to
  the item set, which is not part of \<^verbatim>\<open>Pointer.js\<close>. The spec (section 4.2)
  says that the candidates come as a linked traversal that each of the two loops walks
  once. On an empty set \<^verbatim>\<open>first\<close> is \<^verbatim>\<open>null\<close>, the guard
  \<^verbatim>\<open>currentNode && ...\<close> fails and the loop ends after one round.
\<close>

fun pass1 :: "bool \<Rightarrow> objid list \<Rightarrow> best \<times> game \<Rightarrow> best \<times> game" where
  "pass1 fromClick [] s = s"
| "pass1 fromClick (i # rest) s = pass1 fromClick rest (visit1 fromClick i s)"

fun pass2 :: "bool \<Rightarrow> objid list \<Rightarrow> best \<times> game \<Rightarrow> best \<times> game" where
  "pass2 fromClick [] s = s"
| "pass2 fromClick (i # rest) s = pass2 fromClick rest (visit2 fromClick i s)"

text \<open>
  The last part of \<^verbatim>\<open>processInteractiveObjects\<close> (lines 518 to 556) as the list of
  what the taken branch does, in program order: a call to an object's handler, or an
  assignment to \<^verbatim>\<open>this.targetObject\<close>.
\<close>

datatype action = Notify call | AssignTarget "objid option"

fun perform :: "action \<Rightarrow> pointer \<times> game \<Rightarrow> pointer \<times> game" where
  "perform (Notify c) (p, g) = (p, emit c g)"
| "perform (AssignTarget t) (p, g) = (p\<lparr>targetObject := t\<rparr>, g)"

definition resolution :: "objid option \<Rightarrow> objid option \<Rightarrow> game \<Rightarrow> action list" where
  "resolution old found g =
     (case found of
        None \<Rightarrow>
          (case old of
             None \<Rightarrow> []
           | Some t \<Rightarrow> [Notify (PointerOutHandler t), AssignTarget None])
      | Some h \<Rightarrow>
          (case old of
             None \<Rightarrow> [AssignTarget (Some h), Notify (PointerOverHandler h)]
           | Some t \<Rightarrow>
               if t = h
               then Notify (UpdateHandler h) #
                    (if updateResult (handlers g h) then [] else [AssignTarget None])
               else [Notify (PointerOutHandler t), AssignTarget (Some h),
                     Notify (PointerOverHandler h)]))"

definition initialBest :: best where
  "initialBest =
     \<lparr>highestRenderOrderID = Number_MAX_SAFE_INTEGER, highestInputPriorityID = -1,
      highestRenderObject = None\<rparr>"

text \<open>
  The state of the scratch properties and of the game after the first loop (lines 467 to
  495) and after both loops (to line 515).
\<close>

definition firstPass :: "bool \<Rightarrow> game \<Rightarrow> best \<times> game" where
  "firstPass fromClick g =
     (let g0 = setAll_checked False g
      in pass1 fromClick (interactiveItems g0) (initialBest, g0))"

definition scan :: "bool \<Rightarrow> game \<Rightarrow> best \<times> game" where
  "scan fromClick g =
     (let s1 = firstPass fromClick g in pass2 fromClick (interactiveItems (snd s1)) s1)"

definition processInteractiveObjects :: "bool \<Rightarrow> pointer \<times> game \<Rightarrow> pointer \<times> game" where
  "processInteractiveObjects fromClick s =
     (case s of (p, g) \<Rightarrow>
        (case scan fromClick g of (b, g2) \<Rightarrow>
           fold perform (resolution (targetObject p) (highestRenderObject b) g2)
             (p\<lparr>highest := Some b\<rparr>, g2)))"

text \<open>The value \<^verbatim>\<open>processInteractiveObjects\<close> returns.\<close>

definition processInteractiveObjects_result :: "bool \<Rightarrow> pointer \<times> game \<Rightarrow> bool" where
  "processInteractiveObjects_result fromClick s =
     (targetObject (fst (processInteractiveObjects fromClick s)) \<noteq> None)"

section \<open>The pointer's operations\<close>

text \<open>
  \<^verbatim>\<open>move\<close>, lines 385 to 425: the button, the raw coordinates, the movement of a
  locked mouse, the scaled position, the mirror in \<^verbatim>\<open>game.input\<close> and \<^verbatim>\<open>withinGame\<close>.
\<close>

definition movePosition :: "dom_event \<Rightarrow> bool \<Rightarrow> pointer \<times> game \<Rightarrow> pointer \<times> game" where
  "movePosition event fromClick s =
     (case s of (p, g) \<Rightarrow>
        let p1 = (case ev_button event of None \<Rightarrow> p | Some b \<Rightarrow> p\<lparr>button := Some b\<rparr>);
            p2 = p1\<lparr>clientX := ev_clientX event, clientY := ev_clientY event,
                    pageX := ev_pageX event, pageY := ev_pageY event,
                    screenX := ev_screenX event, screenY := ev_screenY event\<rparr>;
            p3 = (if isMouse p2 \<and> mouse_locked g \<and> \<not> fromClick
                  then
                    (let rx = orZero (orElse (orElse (ev_movementX event) (ev_mozMovementX event))
                                        (ev_webkitMovementX event));
                         ry = orZero (orElse (orElse (ev_movementY event) (ev_mozMovementY event))
                                        (ev_webkitMovementY event))
                     in p2\<lparr>rawMovementX := rx, rawMovementY := ry,
                            movementX := movementX p2 + rx, movementY := movementY p2 + ry\<rparr>)
                  else p2);
            p4 = p3\<lparr>ptr_x := (pageX p3 - pt_x (stage_offset g)) * pt_x (input_scale g),
                    ptr_y := (pageY p3 - pt_y (stage_offset g)) * pt_y (input_scale g)\<rparr>;
            p5 = p4\<lparr>position := \<lparr>pt_x = ptr_x p4, pt_y = ptr_y p4\<rparr>,
                    circle := (circle p4)\<lparr>circle_x := ptr_x p4, circle_y := ptr_y p4\<rparr>\<rparr>;
            g1 = (if inputGate g
                  then g\<lparr>activePointer := Some (ptr_id p5),
                         input_x := ptr_x p5, input_y := ptr_y p5,
                         input_position := \<lparr>pt_x = ptr_x p5, pt_y = ptr_y p5\<rparr>,
                         input_circle := (input_circle g)\<lparr>circle_x := ptr_x p5, circle_y := ptr_y p5\<rparr>\<rparr>
                  else g)
        in (p5\<lparr>withinGame := bounds_contains g1 (pageX p5) (pageY p5)\<rparr>, g1))"

text \<open>
  \<^verbatim>\<open>move\<close>, lines 433 to 451: the move callbacks, last registered first, then either
  the update of a dragged target or the resolver.
\<close>

definition moveTarget :: "bool \<Rightarrow> pointer \<times> game \<Rightarrow> pointer \<times> game" where
  "moveTarget fromClick s =
     (case s of (p, g) \<Rightarrow>
        let g1 = g\<lparr>trace := trace g @
                     map (\<lambda>c. MoveCallback c (ptr_x p) (ptr_y p) fromClick) (rev (moveCallbacks g))\<rparr>;
            resolve = (if 0 < length (interactiveItems g1)
                       then processInteractiveObjects fromClick (p, g1) else (p, g1))
        in (case targetObject p of
              None \<Rightarrow> resolve
            | Some t \<Rightarrow>
                if isDragged (handlers g1 t)
                then
                  (let g2 = emit (UpdateHandler t) g1
                   in if updateResult (handlers g2 t) then (p, g2)
                      else (p\<lparr>targetObject := None\<rparr>, g2))
                else resolve))"

text \<open>
  \<^verbatim>\<open>move(event, fromClick)\<close>; an absent \<^verbatim>\<open>fromClick\<close> is \<^verbatim>\<open>false\<close>. The source
  returns \<^verbatim>\<open>undefined\<close> when polling is locked and the pointer otherwise.
\<close>

definition move :: "dom_event \<Rightarrow> bool option \<Rightarrow> pointer \<times> game \<Rightarrow> pointer \<times> game" where
  "move event fromClickArg s =
     (if pollLocked (snd s) then s
      else
        (let fromClick = (case fromClickArg of None \<Rightarrow> False | Some f \<Rightarrow> f);
             s1 = movePosition event fromClick s
         in if paused (snd s1) then s1 else moveTarget fromClick s1))"

definition leave :: "dom_event \<Rightarrow> pointer \<times> game \<Rightarrow> pointer \<times> game" where
  "leave event s = (case s of (p, g) \<Rightarrow> move event (Some False) (p\<lparr>withinGame := False\<rparr>, g))"

text \<open>
  \<^verbatim>\<open>start(event)\<close>, lines 264 to 287: the fields written before the call of
  \<^verbatim>\<open>move\<close>. \<^verbatim>\<open>event['pointerId']\<close> is truthy when it is present and not 0;
  \<^verbatim>\<open>event.button\<close> is written when it is defined.
\<close>

definition startPress :: "dom_event \<Rightarrow> pointer \<times> game \<Rightarrow> pointer \<times> game" where
  "startPress event s =
     (case s of (p, g) \<Rightarrow>
        let p1 = (case ev_pointerId event of
                    None \<Rightarrow> p
                  | Some v \<Rightarrow> if v = 0 then p else p\<lparr>pointerId := Some v\<rparr>);
            p2 = p1\<lparr>ptr_identifier := ev_identifier event, target := ev_target event\<rparr>;
            p3 = (case ev_button event of None \<Rightarrow> p2 | Some b \<Rightarrow> p2\<lparr>button := Some b\<rparr>);
            p4 = p3\<lparr>history := [], active := True, withinGame := True, isDown := True,
                    isUp := False, dirty := False\<rparr>;
            p5 = p4\<lparr>msSinceLastClick := now g - timeDown p4\<rparr>
        in (p5\<lparr>timeDown := now g, holdSent := False\<rparr>, g))"

text \<open>
  \<^verbatim>\<open>start(event)\<close>, lines 293 to 315: the position of the press, the down signal
  under the multi-input test, the counters, and the touched handler of a target that is
  still assigned.
\<close>

definition startSignals :: "pointer \<times> game \<Rightarrow> pointer \<times> game" where
  "startSignals s =
     (case s of (p, g) \<Rightarrow>
        let p1 = p\<lparr>positionDown := \<lparr>pt_x = ptr_x p, pt_y = ptr_y p\<rparr>\<rparr>;
            g1 = (if inputGate g
                  then emit (ResetSpeed (ptr_x p1) (ptr_y p1))
                         (emit OnDown
                            (g\<lparr>input_x := ptr_x p1, input_y := ptr_y p1,
                                input_position := \<lparr>pt_x = ptr_x p1, pt_y = ptr_y p1\<rparr>\<rparr>))
                  else g);
            p2 = p1\<lparr>stateReset := False, totalTouches := totalTouches p1 + 1\<rparr>;
            g2 = (if \<not> isMouse p2 then g1\<lparr>currentPointers := currentPointers g1 + 1\<rparr>
                  else g1);
            g3 = (case targetObject p2 of None \<Rightarrow> g2 | Some t \<Rightarrow> emit (TouchedHandler t) g2)
        in (p2, g3))"

text \<open>\<^verbatim>\<open>start(event)\<close>: line 290 calls \<^verbatim>\<open>this.move(event, true)\<close>.\<close>

definition start :: "dom_event \<Rightarrow> pointer \<times> game \<Rightarrow> pointer \<times> game" where
  "start event s = startSignals (move event (Some True) (startPress event s))"

text \<open>\<^verbatim>\<open>update()\<close>, lines 330 to 338: the forced check of a dirty pointer.\<close>

definition updateDirty :: "pointer \<times> game \<Rightarrow> pointer \<times> game" where
  "updateDirty s =
     (if dirty (fst s)
      then
        (case (if 0 < length (interactiveItems (snd s))
               then processInteractiveObjects True s else s) of
           (p, g) \<Rightarrow> (p\<lparr>dirty := False\<rparr>, g))
      else s)"

text \<open>\<^verbatim>\<open>update()\<close>, lines 340 to 348: the hold signal, sent once per press.\<close>

definition updateHold :: "pointer \<times> game \<Rightarrow> pointer \<times> game" where
  "updateHold s =
     (case s of (p, g) \<Rightarrow>
        if holdSent p = False \<and> holdRate g \<le> duration p g
        then (p\<lparr>holdSent := True\<rparr>, if inputGate g then emit OnHold g else g)
        else (p, g))"

text \<open>
  \<^verbatim>\<open>update()\<close>, lines 351 to 364: the history. \<^verbatim>\<open>push\<close> appends the sample,
  \<^verbatim>\<open>shift\<close> removes the first element.
\<close>

definition updateHistory :: "pointer \<times> game \<Rightarrow> pointer \<times> game" where
  "updateHistory s =
     (case s of (p, g) \<Rightarrow>
        if recordPointerHistory g \<and> nextDrop p \<le> now g
        then
          (let p1 = p\<lparr>nextDrop := now g + recordRate g\<rparr>;
               p2 = p1\<lparr>history := history p1 @
                                     [\<lparr>pt_x = pt_x (position p1), pt_y = pt_y (position p1)\<rparr>]\<rparr>
           in if recordLimit g < int (length (history p2))
              then (p2\<lparr>history := tl (history p2)\<rparr>, g)
              else (p2, g))
        else (p, g))"

definition update :: "pointer \<times> game \<Rightarrow> pointer \<times> game" where
  "update s = (if active (fst s) then updateHistory (updateHold (updateDirty s)) else s)"

text \<open>
  \<^verbatim>\<open>stop(event)\<close>, lines 591 to 612: the up signal and the tap, under the
  multi-input test.
\<close>

definition stopSignals :: "pointer \<times> game \<Rightarrow> pointer \<times> game" where
  "stopSignals s =
     (case s of (p, g) \<Rightarrow>
        if inputGate g
        then
          (let g1 = emit OnUp g
           in if 0 \<le> duration p g1 \<and> duration p g1 \<le> tapRate g1
              then
                (let g2 = (if timeUp p - previousTapTime p < doubleTapRate g1
                           then emit (OnTap True) g1 else emit (OnTap False) g1)
                 in (p\<lparr>previousTapTime := timeUp p\<rparr>, g2))
              else (p, g1))
        else (p, g))"

text \<open>
  \<^verbatim>\<open>stop(event)\<close>. After a reset the call only prevents the event's default action
  and returns \<^verbatim>\<open>undefined\<close>; otherwise it returns the pointer.
\<close>

definition stop :: "dom_event \<Rightarrow> pointer \<times> game \<Rightarrow> pointer \<times> game" where
  "stop event s =
     (case s of (p, g) \<Rightarrow>
        if stateReset p then (p, emit PreventDefault g)
        else
          (case stopSignals (p\<lparr>timeUp := now g\<rparr>, g) of (p1, g1) \<Rightarrow>
             let p2 = (if 0 < ptr_id p1 then p1\<lparr>active := False\<rparr> else p1);
                 p3 = p2\<lparr>withinGame := False, isDown := False, isUp := True,
                         pointerId := None, ptr_identifier := None\<rparr>;
                 p4 = p3\<lparr>positionUp := \<lparr>pt_x = ptr_x p3, pt_y = ptr_y p3\<rparr>\<rparr>;
                 g2 = (if isMouse p4 = False
                       then g1\<lparr>currentPointers := currentPointers g1 - 1\<rparr> else g1);
                 g3 = callAll_releasedHandler g2
             in (p4\<lparr>targetObject := None\<rparr>, g3)))"

text \<open>
  \<^verbatim>\<open>justPressed(duration)\<close> and \<^verbatim>\<open>justReleased(duration)\<close>: an absent or zero
  argument is replaced by the rate of the input manager.
\<close>

definition justPressed :: "int option \<Rightarrow> pointer \<Rightarrow> game \<Rightarrow> bool" where
  "justPressed durationArg p g =
     (let d = (case durationArg of
                 None \<Rightarrow> justPressedRate g
               | Some v \<Rightarrow> if v = 0 then justPressedRate g else v)
      in isDown p = True \<and> now g < timeDown p + d)"

definition justReleased :: "int option \<Rightarrow> pointer \<Rightarrow> game \<Rightarrow> bool" where
  "justReleased durationArg p g =
     (let d = (case durationArg of
                 None \<Rightarrow> justReleasedRate g
               | Some v \<Rightarrow> if v = 0 then justReleasedRate g else v)
      in isUp p = True \<and> now g < timeUp p + d)"

text \<open>\<^verbatim>\<open>reset()\<close>.\<close>

definition reset :: "pointer \<times> game \<Rightarrow> pointer \<times> game" where
  "reset s =
     (case s of (p, g) \<Rightarrow>
        let p1 = (if isMouse p = False then p\<lparr>active := False\<rparr> else p);
            p2 = p1\<lparr>pointerId := None, ptr_identifier := None, dirty := False,
                    isDown := False, isUp := True, totalTouches := 0, holdSent := False,
                    history := [], stateReset := True\<rparr>;
            g1 = (case targetObject p2 of None \<Rightarrow> g | Some t \<Rightarrow> emit (ReleasedHandler t) g)
        in (p2\<lparr>targetObject := None\<rparr>, g1))"

definition resetMovement :: "pointer \<Rightarrow> pointer" where
  "resetMovement p = p\<lparr>movementX := 0, movementY := 0\<rparr>"

section \<open>Reading the trace\<close>

text \<open>
  The five notification patterns of the resolution step: nothing, pointer-over on the
  new target, pointer-out on the old target, pointer-out on the old then pointer-over
  on the new target, and the update of the unchanged target; and the calls each makes.
\<close>

datatype notification =
    NoNotification
  | Over objid
  | Out objid
  | OutThenOver objid objid
  | ContinuedUpdate objid

fun notificationCalls :: "notification \<Rightarrow> call list" where
  "notificationCalls NoNotification = []"
| "notificationCalls (Over n) = [PointerOverHandler n]"
| "notificationCalls (Out t) = [PointerOutHandler t]"
| "notificationCalls (OutThenOver t n) = [PointerOutHandler t, PointerOverHandler n]"
| "notificationCalls (ContinuedUpdate t) = [UpdateHandler t]"

text \<open>
  The pattern that the claim names for a resolution that starts with the target \<open>old\<close>
  and whose loops found \<open>found\<close>: nothing when there is neither, pointer-over on the
  new target when there was none, pointer-out on the old target when nothing is found,
  the update of the target when it is found again, and pointer-out on the old then
  pointer-over on the new target when another object is found.
\<close>

fun expectedNotification :: "objid option \<Rightarrow> objid option \<Rightarrow> notification" where
  "expectedNotification None None = NoNotification"
| "expectedNotification None (Some n) = Over n"
| "expectedNotification (Some t) None = Out t"
| "expectedNotification (Some t) (Some n) = (if t = n then ContinuedUpdate t else OutThenOver t n)"

text \<open>
  The values that \<^verbatim>\<open>targetObject\<close> takes while a list of actions runs: the value
  before the first action and the value after each action.
\<close>

fun targetsDuring :: "action list \<Rightarrow> pointer \<times> game \<Rightarrow> objid option list" where
  "targetsDuring [] s = [targetObject (fst s)]"
| "targetsDuring (a # rest) s = targetObject (fst s) # targetsDuring rest (perform a s)"

text \<open>The calls and the assignments to \<^verbatim>\<open>targetObject\<close> in a list of actions.\<close>

fun callsOf :: "action list \<Rightarrow> call list" where
  "callsOf [] = []"
| "callsOf (Notify c # rest) = c # callsOf rest"
| "callsOf (AssignTarget t # rest) = callsOf rest"

fun assignmentsOf :: "action list \<Rightarrow> objid option list" where
  "assignmentsOf [] = []"
| "assignmentsOf (Notify c # rest) = assignmentsOf rest"
| "assignmentsOf (AssignTarget t # rest) = t # assignmentsOf rest"

text \<open>
  The exact tests of object \<open>i\<close> in a trace: the calls of \<^verbatim>\<open>checkPointerDown\<close> or
  \<^verbatim>\<open>checkPointerOver\<close> on it with \<^verbatim>\<open>fastTest = false\<close>.
\<close>

definition exactTests :: "objid \<Rightarrow> call list \<Rightarrow> call list" where
  "exactTests i cs =
     filter (\<lambda>c. c = CheckPointerDown i False \<or> c = CheckPointerOver i False) cs"

text \<open>
  What one visit of the first loop does to the scratch properties alone, and what it
  means that object \<open>w\<close> is the best found.
\<close>

definition select1 :: "bool \<Rightarrow> game \<Rightarrow> objid \<Rightarrow> best \<Rightarrow> best" where
  "select1 fromClick g i b =
     (if validForInput (handlers g i) (highestInputPriorityID b) (highestRenderOrderID b) False \<and>
         overlaps fromClick True (handlers g i)
      then \<lparr>highestRenderOrderID = renderOrderID (handlers g i),
            highestInputPriorityID = priorityID (handlers g i),
            highestRenderObject = Some i\<rparr>
      else b)"

definition isBest :: "objid \<Rightarrow> game \<Rightarrow> best \<Rightarrow> bool" where
  "isBest w g b =
     (highestRenderObject b = Some w \<and>
      highestInputPriorityID b = priorityID (handlers g w) \<and>
      highestRenderOrderID b = renderOrderID (handlers g w))"

section \<open>Example states\<close>

text \<open>
  An interactive object with the given priority, render order and need of the exact
  test, whose tests all return \<open>hit\<close> and whose \<^verbatim>\<open>update\<close> returns \<open>upd\<close>.
\<close>

definition exampleHandler :: "int \<Rightarrow> int \<Rightarrow> bool \<Rightarrow> bool \<Rightarrow> bool \<Rightarrow> inputHandler" where
  "exampleHandler prio order exact hit upd =
     \<lparr>priorityID = prio, renderOrderID = order, pixelPerfect = exact, checked = False,
      isDragged = False, checkPointerDown = (\<lambda>_. hit), checkPointerOver = (\<lambda>_. hit),
      updateResult = upd\<rparr>"

text \<open>
  A running game at time \<open>t\<close> with the input manager's default rates, no scaling, the
  given override mode, item set and objects, and an empty trace.
\<close>

definition exampleGame ::
  "int \<Rightarrow> multiInput \<Rightarrow> objid list \<Rightarrow> (objid \<Rightarrow> inputHandler) \<Rightarrow> game" where
  "exampleGame t mode items hs =
     \<lparr>now = t, paused = False, multiInputOverride = mode, currentPointers = 0,
      input_x = 0, input_y = 0, input_position = \<lparr>pt_x = 0, pt_y = 0\<rparr>,
      input_circle = \<lparr>circle_x = 0, circle_y = 0, diameter = 44\<rparr>, activePointer = None,
      pollLocked = False, mouse_locked = False, input_scale = \<lparr>pt_x = 1, pt_y = 1\<rparr>,
      stage_offset = \<lparr>pt_x = 0, pt_y = 0\<rparr>, bounds_contains = (\<lambda>_ _. True),
      camera_x = 0, camera_y = 0, interactiveItems = items, handlers = hs,
      moveCallbacks = [], holdRate = 2000, tapRate = 200, doubleTapRate = 300,
      justPressedRate = 200, justReleasedRate = 200, recordPointerHistory = True,
      recordRate = 100, recordLimit = 2, trace = []\<rparr>"

definition exampleEvent :: "real \<Rightarrow> real \<Rightarrow> dom_event" where
  "exampleEvent ex ey =
     \<lparr>ev_pointerId = None, ev_identifier = Some 7, ev_target = None, ev_button = None,
      ev_clientX = ex, ev_clientY = ey, ev_pageX = ex, ev_pageY = ey,
      ev_screenX = ex, ev_screenY = ey,
      ev_movementX = None, ev_mozMovementX = None, ev_webkitMovementX = None,
      ev_movementY = None, ev_mozMovementY = None, ev_webkitMovementY = None\<rparr>"

text \<open>The clock of the game moves on to \<open>t\<close> between two calls.\<close>

definition atTime :: "int \<Rightarrow> pointer \<times> game \<Rightarrow> pointer \<times> game" where
  "atTime t s = (fst s, (snd s)\<lparr>now := t\<rparr>)"

text \<open>
  A pointer of a touch slot that was pressed at time 1000, released at 1100 and pressed
  again at 1200, seen at time 1250 while it is still down.
\<close>

definition pressedAgain :: "pointer \<times> game" where
  "pressedAgain =
     atTime 1250 (start (exampleEvent 5 5)
       (atTime 1200 (stop (exampleEvent 5 5)
          (atTime 1100 (start (exampleEvent 5 5)
             (Pointer 1, exampleGame 1000 MOUSE_TOUCH_COMBINE []
                           (\<lambda>_. exampleHandler 0 0 False False True)))))))"

text \<open>
  A pointer pressed at (5, 5) at time 1000 and recorded, moved to (6, 6) and recorded at
  1100, then moved to (7, 7), at time 1200; the example game keeps two samples.
\<close>

definition fullHistory :: "pointer \<times> game" where
  "fullHistory =
     atTime 1200 (move (exampleEvent 7 7) None
       (update (atTime 1100 (move (exampleEvent 6 6) None
          (update (start (exampleEvent 5 5)
             (Pointer 1, exampleGame 1000 MOUSE_TOUCH_COMBINE []
                           (\<lambda>_. exampleHandler 0 0 False False True))))))))"

text \<open>
  A touch pointer tapped once (pressed at 1000, released at 1050) and pressed again at
  1100, seen at 1150, in a game that combines mouse and touch.
\<close>

definition secondPress :: "pointer \<times> game" where
  "secondPress =
     atTime 1150 (start (exampleEvent 5 5)
       (atTime 1100 (stop (exampleEvent 5 5)
          (atTime 1050 (start (exampleEvent 5 5)
             (Pointer 1, exampleGame 1000 MOUSE_TOUCH_COMBINE []
                           (\<lambda>_. exampleHandler 0 0 False False True)))))))"

text \<open>
  A touch pointer right after its press at time 1000 in a game where touch overrides
  the mouse; the same pointer seen at 1050 while it is down; and the mouse pointer of
  that game, pressed at 1020 while the finger is down and seen at 1050.
\<close>

definition touchDown :: "pointer \<times> game" where
  "touchDown =
     start (exampleEvent 5 5)
       (Pointer 1, exampleGame 1000 TOUCH_OVERRIDES_MOUSE []
                     (\<lambda>_. exampleHandler 0 0 False False True))"

definition touchPressed :: "pointer \<times> game" where
  "touchPressed = atTime 1050 touchDown"

definition mouseWhileTouching :: "pointer \<times> game" where
  "mouseWhileTouching =
     atTime 1050 (start (exampleEvent 9 9) (Pointer 0, snd (atTime 1020 touchDown)))"

section \<open>What the operations leave unchanged\<close>

lemma fold_perform_field:
  assumes "\<And>q t. f (q\<lparr>targetObject := t\<rparr>) = f q"
  shows "f (fst (fold perform acts (p, g))) = f p"
proof (induction acts arbitrary: p g)
  case Nil
  show ?case by simp
next
  case (Cons a acts)
  show ?case
  proof (cases a)
    case (Notify c)
    then show ?thesis using Cons.IH [of p "emit c g"] by simp
  next
    case (AssignTarget t)
    then show ?thesis using Cons.IH [of "p\<lparr>targetObject := t\<rparr>" g] assms by simp
  qed
qed

lemma pio_field:
  assumes "\<And>q t. f (q\<lparr>targetObject := t\<rparr>) = f q"
      and "\<And>q b. f (q\<lparr>highest := b\<rparr>) = f q"
  shows "f (fst (processInteractiveObjects fc (p, g))) = f p"
proof -
  obtain b g2 where sc: "scan fc g = (b, g2)" by (cases "scan fc g")
  have "processInteractiveObjects fc (p, g) =
        fold perform (resolution (targetObject p) (highestRenderObject b) g2) (p\<lparr>highest := Some b\<rparr>, g2)"
    by (simp add: processInteractiveObjects_def sc)
  then show ?thesis using fold_perform_field [of f, OF assms(1)] assms(2) by simp
qed

lemma moveTarget_field:
  assumes "\<And>q t. f (q\<lparr>targetObject := t\<rparr>) = f q"
      and "\<And>q b. f (q\<lparr>highest := b\<rparr>) = f q"
  shows "f (fst (moveTarget fc (p, g))) = f p"
  using assms(1) pio_field [of f, OF assms]
  by (simp add: moveTarget_def Let_def split: option.splits)

lemma movePosition_kept:
  "isDown (fst (movePosition e fc (p, g))) = isDown p"
  "isUp (fst (movePosition e fc (p, g))) = isUp p"
  "history (fst (movePosition e fc (p, g))) = history p"
  "timeDown (fst (movePosition e fc (p, g))) = timeDown p"
  "timeUp (fst (movePosition e fc (p, g))) = timeUp p"
  "previousTapTime (fst (movePosition e fc (p, g))) = previousTapTime p"
  "msSinceLastClick (fst (movePosition e fc (p, g))) = msSinceLastClick p"
  by (simp_all add: movePosition_def Let_def split: option.splits)

lemma move_kept:
  "isDown (fst (move e fca (p, g))) = isDown p"
  "isUp (fst (move e fca (p, g))) = isUp p"
  "history (fst (move e fca (p, g))) = history p"
  "timeDown (fst (move e fca (p, g))) = timeDown p"
  "timeUp (fst (move e fca (p, g))) = timeUp p"
  "previousTapTime (fst (move e fca (p, g))) = previousTapTime p"
  "msSinceLastClick (fst (move e fca (p, g))) = msSinceLastClick p"
proof -
  define fc where "fc = (case fca of None \<Rightarrow> False | Some f \<Rightarrow> f)"
  obtain p1 g1 where mp: "movePosition e fc (p, g) = (p1, g1)"
    by (cases "movePosition e fc (p, g)")
  have k: "isDown p1 = isDown p" "isUp p1 = isUp p" "history p1 = history p"
    "timeDown p1 = timeDown p" "timeUp p1 = timeUp p"
    "previousTapTime p1 = previousTapTime p" "msSinceLastClick p1 = msSinceLastClick p"
    using movePosition_kept [of e fc p g] by (simp_all add: mp)
  have mv: "move e fca (p, g) =
      (if pollLocked g then (p, g) else if paused g1 then (p1, g1) else moveTarget fc (p1, g1))"
    by (simp add: move_def Let_def fc_def [symmetric] mp)
  show "isDown (fst (move e fca (p, g))) = isDown p"
    unfolding mv using moveTarget_field [of isDown fc p1 g1] k by simp
  show "isUp (fst (move e fca (p, g))) = isUp p"
    unfolding mv using moveTarget_field [of isUp fc p1 g1] k by simp
  show "history (fst (move e fca (p, g))) = history p"
    unfolding mv using moveTarget_field [of history fc p1 g1] k by simp
  show "timeDown (fst (move e fca (p, g))) = timeDown p"
    unfolding mv using moveTarget_field [of timeDown fc p1 g1] k by simp
  show "timeUp (fst (move e fca (p, g))) = timeUp p"
    unfolding mv using moveTarget_field [of timeUp fc p1 g1] k by simp
  show "previousTapTime (fst (move e fca (p, g))) = previousTapTime p"
    unfolding mv using moveTarget_field [of previousTapTime fc p1 g1] k by simp
  show "msSinceLastClick (fst (move e fca (p, g))) = msSinceLastClick p"
    unfolding mv using moveTarget_field [of msSinceLastClick fc p1 g1] k by simp
qed

lemma start_fields:
  "isDown (fst (start e (p, g)))"
  "\<not> isUp (fst (start e (p, g)))"
  "history (fst (start e (p, g))) = []"
  "timeDown (fst (start e (p, g))) = now g"
  "msSinceLastClick (fst (start e (p, g))) = now g - timeDown p"
proof -
  obtain p6 where sp: "startPress e (p, g) = (p6, g)"
    by (simp add: startPress_def Let_def)
  have k6: "isDown p6" "\<not> isUp p6" "history p6 = []" "timeDown p6 = now g"
    "msSinceLastClick p6 = now g - timeDown p"
    using sp by (auto simp add: startPress_def Let_def split: option.splits)
  obtain p7 g1 where mv: "move e (Some True) (p6, g) = (p7, g1)"
    by (cases "move e (Some True) (p6, g)")
  have k: "isDown p7" "\<not> isUp p7" "history p7 = []" "timeDown p7 = now g"
    "msSinceLastClick p7 = now g - timeDown p"
    using move_kept [of e "Some True" p6 g] k6 by (simp_all add: mv)
  have st: "fst (start e (p, g)) =
      p7\<lparr>positionDown := \<lparr>pt_x = ptr_x p7, pt_y = ptr_y p7\<rparr>, stateReset := False,
         totalTouches := totalTouches p7 + 1\<rparr>"
    by (simp add: start_def sp mv startSignals_def Let_def)
  show "isDown (fst (start e (p, g)))" unfolding st using k by simp
  show "\<not> isUp (fst (start e (p, g)))" unfolding st using k by simp
  show "history (fst (start e (p, g))) = []" unfolding st using k by simp
  show "timeDown (fst (start e (p, g))) = now g" unfolding st using k by simp
  show "msSinceLastClick (fst (start e (p, g))) = now g - timeDown p" unfolding st using k by simp
qed

section \<open>Presses, releases and resets\<close>

text \<open>
  C7. Every press computes \<open>msSinceLastClick\<close> as the current time minus the previous
  value of \<open>timeDown\<close>, the time of the prior press, before \<open>timeDown\<close> is overwritten:
  after \<open>start\<close> returns, \<open>msSinceLastClick\<close> is the time elapsed since the prior press
  and \<open>timeDown\<close> is the current time.
\<close>

theorem start_msSinceLastClick:
  "msSinceLastClick (fst (start event (p, g))) = now g - timeDown p \<and>
   timeDown (fst (start event (p, g))) = now g"
  by (simp add: start_fields)

text \<open>A press at time 1000 and the next at time 1500: 500 ms since the last click.\<close>

theorem start_msSinceLastClick_witness:
  "msSinceLastClick (fst (start (exampleEvent 10 10)
       (atTime 1500 (start (exampleEvent 3 4) (Pointer 1, exampleGame 1000 MOUSE_TOUCH_COMBINE [] (\<lambda>_. exampleHandler 0 0 False False True)))))) = 500"
  using start_msSinceLastClick [of "exampleEvent 10 10"
      "fst (start (exampleEvent 3 4) (Pointer 1, exampleGame 1000 MOUSE_TOUCH_COMBINE [] (\<lambda>_. exampleHandler 0 0 False False True)))"
      "(snd (start (exampleEvent 3 4) (Pointer 1, exampleGame 1000 MOUSE_TOUCH_COMBINE [] (\<lambda>_. exampleHandler 0 0 False False True))))\<lparr>now := 1500\<rparr>"]
    start_msSinceLastClick [of "exampleEvent 3 4" "Pointer 1" "exampleGame 1000 MOUSE_TOUCH_COMBINE [] (\<lambda>_. exampleHandler 0 0 False False True)"]
  by (simp add: atTime_def exampleGame_def)

lemma updateDirty_field:
  assumes "\<And>q t. f (q\<lparr>targetObject := t\<rparr>) = f q"
      and "\<And>q b. f (q\<lparr>highest := b\<rparr>) = f q"
      and "\<And>q b. f (q\<lparr>dirty := b\<rparr>) = f q"
  shows "f (fst (updateDirty (p, g))) = f p"
proof -
  obtain p1 g1 where r: "processInteractiveObjects True (p, g) = (p1, g1)"
    by (cases "processInteractiveObjects True (p, g)")
  have "f p1 = f p" using pio_field [of f True p g, OF assms(1,2)] r by simp
  then show ?thesis using assms(3) by (simp add: updateDirty_def r)
qed

lemma updateHold_kept:
  "isDown (fst (updateHold (p, g))) = isDown p"
  "isUp (fst (updateHold (p, g))) = isUp p"
  "history (fst (updateHold (p, g))) = history p"
  "position (fst (updateHold (p, g))) = position p"
  "nextDrop (fst (updateHold (p, g))) = nextDrop p"
  by (simp_all add: updateHold_def)

lemma updateHold_game:
  "now (snd (updateHold (p, g))) = now g"
  "recordPointerHistory (snd (updateHold (p, g))) = recordPointerHistory g"
  "recordLimit (snd (updateHold (p, g))) = recordLimit g"
  by (simp_all add: updateHold_def emit_def)

lemma updateHistory_flags:
  "isDown (fst (updateHistory (p, g))) = isDown p"
  "isUp (fst (updateHistory (p, g))) = isUp p"
  by (simp_all add: updateHistory_def Let_def)

lemma update_flags:
  "isDown (fst (update (p, g))) = isDown p"
  "isUp (fst (update (p, g))) = isUp p"
proof -
  obtain p1 g1 where d: "updateDirty (p, g) = (p1, g1)" by (cases "updateDirty (p, g)")
  obtain p2 g2 where h: "updateHold (p1, g1) = (p2, g2)" by (cases "updateHold (p1, g1)")
  have k1: "isDown p1 = isDown p" "isUp p1 = isUp p"
    using updateDirty_field [of isDown p g] updateDirty_field [of isUp p g] d by simp_all
  have k2: "isDown p2 = isDown p1" "isUp p2 = isUp p1"
    using updateHold_kept(1,2) [of p1 g1] h by simp_all
  show "isDown (fst (update (p, g))) = isDown p"
    using updateHistory_flags(1) [of p2 g2] k1 k2 by (simp add: update_def d h)
  show "isUp (fst (update (p, g))) = isUp p"
    using updateHistory_flags(2) [of p2 g2] k1 k2 by (simp add: update_def d h)
qed

lemma stop_flags:
  "isDown (fst (stop e (p, g))) = (if stateReset p then isDown p else False)"
  "isUp (fst (stop e (p, g))) = (if stateReset p then isUp p else True)"
  by (simp_all add: stop_def Let_def split: prod.splits)

lemma reset_flags:
  "\<not> isDown (fst (reset (p, g)))"
  "isUp (fst (reset (p, g)))"
  by (simp_all add: reset_def Let_def)

lemma leave_flags:
  "isDown (fst (leave e (p, g))) = isDown p"
  "isUp (fst (leave e (p, g))) = isUp p"
  using move_kept(1,2) [of e "Some False" "p\<lparr>withinGame := False\<rparr>" g]
  by (simp_all add: leave_def)

text \<open>
  C8. Exactly one of \<open>isDown\<close> and \<open>isUp\<close> is true after construction, and every
  operation (\<open>start\<close>, \<open>move\<close>, \<open>update\<close>, \<open>stop\<close>, \<open>reset\<close>, \<open>leave\<close>) preserves
  that: \<open>start\<close>, \<open>reset\<close> and a \<open>stop\<close> that is not suppressed write both flags, to
  opposite values; \<open>move\<close>, \<open>update\<close>, \<open>leave\<close> and a suppressed \<open>stop\<close> write
  neither.
\<close>

theorem isDown_isUp_exclusive:
  assumes "isDown p \<noteq> isUp p"
  shows "isDown (Pointer n) \<noteq> isUp (Pointer n) \<and>
         isDown (fst (start e (p, g))) \<noteq> isUp (fst (start e (p, g))) \<and>
         isDown (fst (move e fromClick (p, g))) \<noteq> isUp (fst (move e fromClick (p, g))) \<and>
         isDown (fst (update (p, g))) \<noteq> isUp (fst (update (p, g))) \<and>
         isDown (fst (stop e (p, g))) \<noteq> isUp (fst (stop e (p, g))) \<and>
         isDown (fst (reset (p, g))) \<noteq> isUp (fst (reset (p, g))) \<and>
         isDown (fst (leave e (p, g))) \<noteq> isUp (fst (leave e (p, g))) \<and>
         (isDown (fst (start e (p, g))) \<and> \<not> isUp (fst (start e (p, g)))) \<and>
         (\<not> isDown (fst (reset (p, g))) \<and> isUp (fst (reset (p, g)))) \<and>
         (isDown (fst (stop e (p, g))) = (if stateReset p then isDown p else False) \<and>
          isUp (fst (stop e (p, g))) = (if stateReset p then isUp p else True)) \<and>
         (isDown (fst (move e fromClick (p, g))) = isDown p \<and>
          isUp (fst (move e fromClick (p, g))) = isUp p) \<and>
         (isDown (fst (update (p, g))) = isDown p \<and> isUp (fst (update (p, g))) = isUp p) \<and>
         (isDown (fst (leave e (p, g))) = isDown p \<and> isUp (fst (leave e (p, g))) = isUp p)"
proof -
  have c: "isDown (Pointer n) \<noteq> isUp (Pointer n)" by (simp add: Pointer_def)
  show ?thesis
    using assms c start_fields(1,2) [of e p g] move_kept(1,2) [of e fromClick p g]
      update_flags [of p g] stop_flags [of e p g] reset_flags [of p g] leave_flags [of e p g]
    by simp
qed

text \<open>A fresh pointer satisfies the hypothesis, and so does it after a press.\<close>

theorem isDown_isUp_exclusive_witness:
  "isDown (Pointer 1) \<noteq> isUp (Pointer 1) \<and>
   isDown (fst (start (exampleEvent 3 4) (Pointer 1, exampleGame 1000 MOUSE_TOUCH_COMBINE [] (\<lambda>_. exampleHandler 0 0 False False True))))
     \<noteq> isUp (fst (start (exampleEvent 3 4) (Pointer 1, exampleGame 1000 MOUSE_TOUCH_COMBINE [] (\<lambda>_. exampleHandler 0 0 False False True)))) \<and>
   isUp (fst (stop (exampleEvent 3 4) (Pointer 1, exampleGame 1000 MOUSE_TOUCH_COMBINE [] (\<lambda>_. exampleHandler 0 0 False False True))))"
proof -
  have h: "isDown (Pointer 1) \<noteq> isUp (Pointer 1)" by (simp add: Pointer_def)
  have r: "\<not> stateReset (Pointer 1)" by (simp add: Pointer_def)
  show ?thesis
    using h r isDown_isUp_exclusive [OF h, of 1 "exampleEvent 3 4"
        "exampleGame 1000 MOUSE_TOUCH_COMBINE [] (\<lambda>_. exampleHandler 0 0 False False True)" None]
    by simp
qed

text \<open>
  C9. A release made while \<open>_stateReset\<close> is true is suppressed: the pointer keeps
  every field (\<open>timeUp\<close>, \<open>isDown\<close>, \<open>isUp\<close>, \<open>active\<close>, \<open>totalTouches\<close>,
  \<open>targetObject\<close> and the identifiers among them), no signal is dispatched and no
  candidate is notified. The one call made is the event's \<^verbatim>\<open>preventDefault\<close>.
\<close>

theorem stop_suppressed_after_reset:
  assumes "stateReset p"
  shows "fst (stop event (p, g)) = p \<and>
         snd (stop event (p, g)) = g\<lparr>trace := trace g @ [PreventDefault]\<rparr>"
  using assms by (simp add: stop_def emit_def)

text \<open>A reset sets the flag, and the release that follows changes nothing.\<close>

theorem stop_suppressed_after_reset_witness:
  "stateReset (fst (reset (Pointer 1, exampleGame 1000 MOUSE_TOUCH_COMBINE [] (\<lambda>_. exampleHandler 0 0 False False True)))) \<and>
   fst (stop (exampleEvent 3 4) (reset (Pointer 1, exampleGame 1000 MOUSE_TOUCH_COMBINE [] (\<lambda>_. exampleHandler 0 0 False False True))))
     = fst (reset (Pointer 1, exampleGame 1000 MOUSE_TOUCH_COMBINE [] (\<lambda>_. exampleHandler 0 0 False False True))) \<and>
   trace (snd (stop (exampleEvent 3 4) (reset (Pointer 1, exampleGame 1000 MOUSE_TOUCH_COMBINE [] (\<lambda>_. exampleHandler 0 0 False False True)))))
     = [PreventDefault]"
proof -
  let ?s = "reset (Pointer 1, exampleGame 1000 MOUSE_TOUCH_COMBINE [] (\<lambda>_. exampleHandler 0 0 False False True))"
  have h: "stateReset (fst ?s)" by (simp add: reset_def Let_def)
  have t: "trace (snd ?s) = []" by (simp add: reset_def Let_def Pointer_def exampleGame_def)
  show ?thesis
    using h t stop_suppressed_after_reset [OF h, of "exampleEvent 3 4" "snd ?s"] by simp
qed

lemma pressedAgain_fields:
  "isDown (fst pressedAgain)" "\<not> isUp (fst pressedAgain)" "timeUp (fst pressedAgain) = 1100"
  "now (snd pressedAgain) = 1250" "justReleasedRate (snd pressedAgain) = 200"
  by (simp_all add: pressedAgain_def atTime_def start_def startPress_def startSignals_def
      move_def movePosition_def moveTarget_def stop_def stopSignals_def
      callAll_releasedHandler_def emit_def inputGate_def duration_def Let_def
      exampleGame_def exampleEvent_def Pointer_def)

lemma reset_timing:
  "timeDown (fst (reset (p, g))) = timeDown p"
  "timeUp (fst (reset (p, g))) = timeUp p"
  "previousTapTime (fst (reset (p, g))) = previousTapTime p"
  "msSinceLastClick (fst (reset (p, g))) = msSinceLastClick p"
  "now (snd (reset (p, g))) = now g"
  "justReleasedRate (snd (reset (p, g))) = justReleasedRate g"
  by (simp_all add: reset_def Let_def emit_def split: option.splits)

text \<open>
  C10. \<open>reset\<close> leaves \<open>timeDown\<close>, \<open>timeUp\<close>, \<open>previousTapTime\<close> and
  \<open>msSinceLastClick\<close> unchanged while it sets \<open>isUp\<close>. So there are call sequences
  after which \<open>justReleased\<close> is true right after a \<open>reset\<close> although no release has
  happened since: for the pointer \<open>pressedAgain\<close>, which is down, \<open>justReleased\<close> is
  false before the reset and true after it.
\<close>

theorem reset_keeps_timing:
  "timeDown (fst (reset (p, g))) = timeDown p \<and>
   timeUp (fst (reset (p, g))) = timeUp p \<and>
   previousTapTime (fst (reset (p, g))) = previousTapTime p \<and>
   msSinceLastClick (fst (reset (p, g))) = msSinceLastClick p \<and>
   isUp (fst (reset (p, g))) \<and>
   isDown (fst pressedAgain) \<and>
   \<not> justReleased None (fst pressedAgain) (snd pressedAgain) \<and>
   justReleased None (fst (reset pressedAgain)) (snd (reset pressedAgain))"
proof -
  obtain q h where pa: "pressedAgain = (q, h)" by (cases pressedAgain)
  have f: "isDown q" "\<not> isUp q" "timeUp q = 1100" "now h = 1250" "justReleasedRate h = 200"
    using pressedAgain_fields by (simp_all add: pa)
  have before: "\<not> justReleased None q h" using f by (simp add: justReleased_def)
  have after: "justReleased None (fst (reset (q, h))) (snd (reset (q, h)))"
    using f reset_timing [of q h] reset_flags [of q h] by (simp add: justReleased_def)
  show ?thesis using reset_timing [of p g] reset_flags [of p g] f before after
    by (simp add: pa)
qed

lemmas example_simps =
  atTime_def start_def startPress_def startSignals_def move_def movePosition_def
  moveTarget_def stop_def stopSignals_def update_def updateDirty_def updateHold_def
  updateHistory_def callAll_releasedHandler_def emit_def inputGate_def duration_def Let_def
  exampleGame_def exampleEvent_def Pointer_def

section \<open>What the resolver leaves unchanged in the game state\<close>

lemma visit1_gfield:
  assumes "\<And>g h. f (g\<lparr>handlers := h\<rparr>) = f g" and "\<And>g t. f (g\<lparr>trace := t\<rparr>) = f g"
  shows "f (snd (visit1 fc i (b, g))) = f g"
  by (simp add: visit1_def Let_def emit_def assms)

lemma visit2_gfield:
  assumes "\<And>g h. f (g\<lparr>handlers := h\<rparr>) = f g" and "\<And>g t. f (g\<lparr>trace := t\<rparr>) = f g"
  shows "f (snd (visit2 fc i (b, g))) = f g"
  by (simp add: visit2_def Let_def emit_def assms)

lemma pass1_gfield:
  assumes "\<And>g h. f (g\<lparr>handlers := h\<rparr>) = f g" and "\<And>g t. f (g\<lparr>trace := t\<rparr>) = f g"
  shows "f (snd (pass1 fc xs (b, g))) = f g"
proof (induction xs arbitrary: b g)
  case Nil
  show ?case by simp
next
  case (Cons i xs)
  obtain b1 g1 where v: "visit1 fc i (b, g) = (b1, g1)" by (cases "visit1 fc i (b, g)")
  have "f g1 = f g" using visit1_gfield [of f fc i b g, OF assms] v by simp
  then show ?case using Cons.IH [of b1 g1] v by simp
qed

lemma pass2_gfield:
  assumes "\<And>g h. f (g\<lparr>handlers := h\<rparr>) = f g" and "\<And>g t. f (g\<lparr>trace := t\<rparr>) = f g"
  shows "f (snd (pass2 fc xs (b, g))) = f g"
proof (induction xs arbitrary: b g)
  case Nil
  show ?case by simp
next
  case (Cons i xs)
  obtain b1 g1 where v: "visit2 fc i (b, g) = (b1, g1)" by (cases "visit2 fc i (b, g)")
  have "f g1 = f g" using visit2_gfield [of f fc i b g, OF assms] v by simp
  then show ?case using Cons.IH [of b1 g1] v by simp
qed

lemma firstPass_gfield:
  assumes "\<And>g h. f (g\<lparr>handlers := h\<rparr>) = f g" and "\<And>g t. f (g\<lparr>trace := t\<rparr>) = f g"
  shows "f (snd (firstPass fc g)) = f g"
  using pass1_gfield [of f fc _ initialBest "setAll_checked False g", OF assms] assms(1)
  by (simp add: firstPass_def Let_def setAll_checked_def)

lemma scan_gfield:
  assumes "\<And>g h. f (g\<lparr>handlers := h\<rparr>) = f g" and "\<And>g t. f (g\<lparr>trace := t\<rparr>) = f g"
  shows "f (snd (scan fc g)) = f g"
proof -
  obtain b1 g1 where fp: "firstPass fc g = (b1, g1)" by (cases "firstPass fc g")
  have "f g1 = f g" using firstPass_gfield [of f fc g, OF assms] fp by simp
  then show ?thesis using pass2_gfield [of f fc "interactiveItems g1" b1 g1, OF assms]
    by (simp add: scan_def Let_def fp)
qed

lemma fold_perform_gfield:
  assumes "\<And>g t. f (g\<lparr>trace := t\<rparr>) = f g"
  shows "f (snd (fold perform acts (p, g))) = f g"
proof (induction acts arbitrary: p g)
  case Nil
  show ?case by simp
next
  case (Cons a acts)
  show ?case
  proof (cases a)
    case (Notify c)
    then show ?thesis using Cons.IH [of p "emit c g"] assms by (simp add: emit_def)
  next
    case (AssignTarget t)
    then show ?thesis using Cons.IH [of "p\<lparr>targetObject := t\<rparr>" g] by simp
  qed
qed

lemma pio_gfield:
  assumes "\<And>g h. f (g\<lparr>handlers := h\<rparr>) = f g" and "\<And>g t. f (g\<lparr>trace := t\<rparr>) = f g"
  shows "f (snd (processInteractiveObjects fc (p, g))) = f g"
proof -
  obtain b g2 where sc: "scan fc g = (b, g2)" by (cases "scan fc g")
  have "f g2 = f g" using scan_gfield [of f fc g, OF assms] sc by simp
  then show ?thesis using fold_perform_gfield [of f, OF assms(2)]
    by (simp add: processInteractiveObjects_def sc)
qed

lemma updateDirty_gfield:
  assumes "\<And>g h. f (g\<lparr>handlers := h\<rparr>) = f g" and "\<And>g t. f (g\<lparr>trace := t\<rparr>) = f g"
  shows "f (snd (updateDirty (p, g))) = f g"
proof -
  obtain p1 g1 where r: "processInteractiveObjects True (p, g) = (p1, g1)"
    by (cases "processInteractiveObjects True (p, g)")
  have "f g1 = f g" using pio_gfield [of f True p g, OF assms] r by simp
  then show ?thesis by (simp add: updateDirty_def r)
qed

section \<open>The history buffer\<close>

lemma updateHistory_history:
  "history (fst (updateHistory (p, g))) =
     (if recordPointerHistory g \<and> nextDrop p \<le> now g
      then (if recordLimit g < int (length (history p)) + 1
            then tl (history p @ [\<lparr>pt_x = pt_x (position p), pt_y = pt_y (position p)\<rparr>])
            else history p @ [\<lparr>pt_x = pt_x (position p), pt_y = pt_y (position p)\<rparr>])
      else history p)"
  by (simp add: updateHistory_def Let_def)

lemma update_history:
  "history (fst (update (p, g))) =
     (if active p \<and> recordPointerHistory g \<and> nextDrop p \<le> now g
      then (if recordLimit g < int (length (history p)) + 1
            then tl (history p @ [\<lparr>pt_x = pt_x (position p), pt_y = pt_y (position p)\<rparr>])
            else history p @ [\<lparr>pt_x = pt_x (position p), pt_y = pt_y (position p)\<rparr>])
      else history p)"
proof -
  obtain p1 g1 where d: "updateDirty (p, g) = (p1, g1)" by (cases "updateDirty (p, g)")
  obtain p2 g2 where h: "updateHold (p1, g1) = (p2, g2)" by (cases "updateHold (p1, g1)")
  have k1: "history p1 = history p" "position p1 = position p" "nextDrop p1 = nextDrop p"
    using updateDirty_field [of history p g] updateDirty_field [of position p g]
      updateDirty_field [of nextDrop p g] d by simp_all
  have e1: "now g1 = now g" "recordPointerHistory g1 = recordPointerHistory g"
    "recordLimit g1 = recordLimit g"
    using updateDirty_gfield [of now p g] updateDirty_gfield [of recordPointerHistory p g]
      updateDirty_gfield [of recordLimit p g] d by simp_all
  have k2: "history p2 = history p" "position p2 = position p" "nextDrop p2 = nextDrop p"
    using updateHold_kept(3,4,5) [of p1 g1] h k1 by simp_all
  have e2: "now g2 = now g" "recordPointerHistory g2 = recordPointerHistory g"
    "recordLimit g2 = recordLimit g"
    using updateHold_game [of p1 g1] h e1 by simp_all
  show ?thesis
    using updateHistory_history [of p2 g2] k2 e2 by (simp add: update_def d h)
qed

text \<open>
  C6. If the history holds at most \<open>recordLimit\<close> samples before an operation, it holds
  at most \<open>recordLimit\<close> samples after \<open>update\<close>, after \<open>start\<close> and after \<open>reset\<close>.
  An \<open>update\<close> that records appends the current position and, when that makes the
  buffer longer than \<open>recordLimit\<close>, drops the first, oldest, sample: on a buffer that
  is full and not empty the result is the old buffer without its head, followed by the
  new sample.
\<close>

theorem history_bounded_fifo:
  assumes "int (length (history p)) \<le> recordLimit g"
  shows "int (length (history (fst (update (p, g))))) \<le> recordLimit g \<and>
         int (length (history (fst (start e (p, g))))) \<le> recordLimit g \<and>
         int (length (history (fst (reset (p, g))))) \<le> recordLimit g \<and>
         history (fst (update (p, g))) =
           (if active p \<and> recordPointerHistory g \<and> nextDrop p \<le> now g
            then (if int (length (history p)) = recordLimit g
                  then tl (history p @ [\<lparr>pt_x = pt_x (position p), pt_y = pt_y (position p)\<rparr>])
                  else history p @ [\<lparr>pt_x = pt_x (position p), pt_y = pt_y (position p)\<rparr>])
            else history p) \<and>
         (if active p \<and> recordPointerHistory g \<and> nextDrop p \<le> now g \<and>
             int (length (history p)) = recordLimit g \<and> history p \<noteq> []
          then history (fst (update (p, g))) =
                 tl (history p) @ [\<lparr>pt_x = pt_x (position p), pt_y = pt_y (position p)\<rparr>]
          else True)"
proof -
  have nonneg: "0 \<le> recordLimit g" using assms by linarith
  have u: "int (length (history (fst (update (p, g))))) \<le> recordLimit g"
    using assms by (simp add: update_history)
  have s: "int (length (history (fst (start e (p, g))))) \<le> recordLimit g"
    using nonneg by (simp add: start_fields)
  have r: "int (length (history (fst (reset (p, g))))) \<le> recordLimit g"
    using nonneg by (simp add: reset_def Let_def)
  have f: "history (fst (update (p, g))) =
           (if active p \<and> recordPointerHistory g \<and> nextDrop p \<le> now g
            then (if int (length (history p)) = recordLimit g
                  then tl (history p @ [\<lparr>pt_x = pt_x (position p), pt_y = pt_y (position p)\<rparr>])
                  else history p @ [\<lparr>pt_x = pt_x (position p), pt_y = pt_y (position p)\<rparr>])
            else history p)"
    using assms by (auto simp add: update_history)
  have o: "(if active p \<and> recordPointerHistory g \<and> nextDrop p \<le> now g \<and>
             int (length (history p)) = recordLimit g \<and> history p \<noteq> []
          then history (fst (update (p, g))) =
                 tl (history p) @ [\<lparr>pt_x = pt_x (position p), pt_y = pt_y (position p)\<rparr>]
          else True)"
    by (simp add: f)
  show ?thesis using u s r f o by blast
qed

lemma fullHistory_fields:
  "history (fst fullHistory) = [\<lparr>pt_x = 5, pt_y = 5\<rparr>, \<lparr>pt_x = 6, pt_y = 6\<rparr>]"
  "position (fst fullHistory) = \<lparr>pt_x = 7, pt_y = 7\<rparr>"
  "active (fst fullHistory)" "nextDrop (fst fullHistory) = 1200"
  "now (snd fullHistory) = 1200" "recordLimit (snd fullHistory) = 2"
  "recordPointerHistory (snd fullHistory)"
  by (simp_all add: fullHistory_def example_simps)

text \<open>The buffer is full; the next sample evicts the oldest one.\<close>

theorem history_bounded_fifo_witness:
  "int (length (history (fst fullHistory))) \<le> recordLimit (snd fullHistory) \<and>
   history (fst (update fullHistory)) = [\<lparr>pt_x = 6, pt_y = 6\<rparr>, \<lparr>pt_x = 7, pt_y = 7\<rparr>]"
proof -
  obtain q h where fh: "fullHistory = (q, h)" by (cases fullHistory)
  have f: "history q = [\<lparr>pt_x = 5, pt_y = 5\<rparr>, \<lparr>pt_x = 6, pt_y = 6\<rparr>]"
    "position q = \<lparr>pt_x = 7, pt_y = 7\<rparr>" "active q" "nextDrop q = 1200"
    "now h = 1200" "recordLimit h = 2" "recordPointerHistory h"
    using fullHistory_fields by (simp_all add: fh)
  have b: "int (length (history q)) \<le> recordLimit h" using f by simp
  show ?thesis using b history_bounded_fifo [OF b] f by (simp add: fh)
qed

section \<open>Taps\<close>

lemma duration_timeUp: "duration (p\<lparr>timeUp := t\<rparr>) g = duration p g"
  by (simp add: duration_def)

lemma duration_emit: "duration p (emit c g) = duration p g"
  by (simp add: duration_def emit_def)

lemma stopSignals_result:
  "stopSignals (p, g) =
     (if inputGate g
      then (if 0 \<le> duration p g \<and> duration p g \<le> tapRate g
            then (p\<lparr>previousTapTime := timeUp p\<rparr>,
                  g\<lparr>trace := trace g @
                       [OnUp, OnTap (timeUp p - previousTapTime p < doubleTapRate g)]\<rparr>)
            else (p, g\<lparr>trace := trace g @ [OnUp]\<rparr>))
      else (p, g))"
proof (cases "inputGate g")
  case False
  then show ?thesis by (simp add: stopSignals_def)
next
  case gate: True
  have t: "tapRate (emit OnUp g) = tapRate g" "doubleTapRate (emit OnUp g) = doubleTapRate g"
    by (simp_all add: emit_def)
  show ?thesis
  proof (cases "0 \<le> duration p g \<and> duration p g \<le> tapRate g")
    case False
    then have nt: "(0 \<le> duration p g \<and> duration p g \<le> tapRate g) = False" by simp
    show ?thesis by (simp add: stopSignals_def Let_def duration_emit t gate nt) (simp add: emit_def)
  next
    case True
    then have tap: "(0 \<le> duration p g \<and> duration p g \<le> tapRate g) = True" by simp
    show ?thesis
    proof (cases "timeUp p - previousTapTime p < doubleTapRate g")
      case True
      then show ?thesis
        by (simp add: stopSignals_def Let_def duration_emit t gate tap) (simp add: emit_def)
    next
      case False
      then show ?thesis
        by (simp add: stopSignals_def Let_def duration_emit t gate tap) (simp add: emit_def)
    qed
  qed
qed

lemma stop_unsuppressed:
  assumes "\<not> stateReset p" and "stopSignals (p\<lparr>timeUp := now g\<rparr>, g) = (p1, g1)"
  shows "trace (snd (stop e (p, g))) = trace g1 @ [CallAllReleasedHandler]"
    and "previousTapTime (fst (stop e (p, g))) = previousTapTime p1"
    and "timeUp (fst (stop e (p, g))) = timeUp p1"
  using assms by (simp_all add: stop_def Let_def callAll_releasedHandler_def emit_def)

lemma stop_result:
  assumes "\<not> stateReset p"
  shows "trace (snd (stop e (p, g))) =
           trace g @
           (if inputGate g
            then OnUp # (if 0 \<le> duration p g \<and> duration p g \<le> tapRate g
                         then [OnTap (now g - previousTapTime p < doubleTapRate g)] else [])
            else []) @
           [CallAllReleasedHandler] \<and>
         previousTapTime (fst (stop e (p, g))) =
           (if inputGate g \<and> 0 \<le> duration p g \<and> duration p g \<le> tapRate g
            then now g else previousTapTime p) \<and>
         timeUp (fst (stop e (p, g))) = now g"
proof -
  obtain p1 g1 where ss: "stopSignals (p\<lparr>timeUp := now g\<rparr>, g) = (p1, g1)"
    by (cases "stopSignals (p\<lparr>timeUp := now g\<rparr>, g)")
  note u = stop_unsuppressed [OF assms ss, of e]
  show ?thesis
  proof (cases "inputGate g")
    case False
    then have "p1 = p\<lparr>timeUp := now g\<rparr>" "g1 = g"
      using ss by (auto simp add: stopSignals_result)
    then show ?thesis using False u by simp
  next
    case gate: True
    show ?thesis
    proof (cases "0 \<le> duration p g \<and> duration p g \<le> tapRate g")
      case True
      then have "p1 = p\<lparr>timeUp := now g, previousTapTime := now g\<rparr>"
        "g1 = g\<lparr>trace := trace g @ [OnUp, OnTap (now g - previousTapTime p < doubleTapRate g)]\<rparr>"
        using ss gate by (auto simp add: stopSignals_result duration_timeUp)
      then show ?thesis using True gate u by simp
    next
      case False
      then have nt: "(0 \<le> duration p g \<and> duration p g \<le> tapRate g) = False" by simp
      have "p1 = p\<lparr>timeUp := now g\<rparr>" "g1 = g\<lparr>trace := trace g @ [OnUp]\<rparr>"
        using ss gate by (auto simp add: stopSignals_result duration_timeUp nt)
      then show ?thesis using gate u by (simp add: nt)
    qed
  qed
qed

text \<open>
  C5, as the code has it. Take a release that the reset flag does not suppress. When
  the multi-input test holds (\<open>multiInputOverride\<close> is \<open>MOUSE_OVERRIDES_TOUCH\<close> or
  \<open>MOUSE_TOUCH_COMBINE\<close>, or it is \<open>TOUCH_OVERRIDES_MOUSE\<close> and \<open>currentPointers\<close>
  is 0), the release dispatches the up signal, then, if its duration lies in
  \<open>[0, tapRate]\<close>, exactly one tap, a double tap if and only if
  \<open>timeUp - previousTapTime < doubleTapRate\<close> and a single tap otherwise, and it sets
  \<open>previousTapTime\<close> to \<open>timeUp\<close>; if the duration lies outside, it dispatches no
  tap and leaves \<open>previousTapTime\<close> as it was. Whether or not the test holds,
  \<open>previousTapTime\<close> changes only in a release that declares a tap. Nothing is said
  about the signals of a release for which the test fails.
\<close>

theorem stop_tap_under_gate:
  assumes "\<not> stateReset p"
  shows "(inputGate g \<longrightarrow>
            trace (snd (stop e (p, g))) =
              trace g @
              OnUp # (if 0 \<le> duration p g \<and> duration p g \<le> tapRate g
                      then [OnTap (now g - previousTapTime p < doubleTapRate g)] else []) @
              [CallAllReleasedHandler] \<and>
            previousTapTime (fst (stop e (p, g))) =
              (if 0 \<le> duration p g \<and> duration p g \<le> tapRate g
               then now g else previousTapTime p) \<and>
            timeUp (fst (stop e (p, g))) = now g) \<and>
         (previousTapTime (fst (stop e (p, g))) \<noteq> previousTapTime p \<longrightarrow>
            inputGate g \<and> 0 \<le> duration p g \<and> duration p g \<le> tapRate g \<and>
            previousTapTime (fst (stop e (p, g))) = now g)"
proof -
  note r = stop_result [OF assms, of e g]
  have under: "trace (snd (stop e (p, g))) =
              trace g @
              OnUp # (if 0 \<le> duration p g \<and> duration p g \<le> tapRate g
                      then [OnTap (now g - previousTapTime p < doubleTapRate g)] else []) @
              [CallAllReleasedHandler] \<and>
            previousTapTime (fst (stop e (p, g))) =
              (if 0 \<le> duration p g \<and> duration p g \<le> tapRate g
               then now g else previousTapTime p) \<and>
            timeUp (fst (stop e (p, g))) = now g"
    if "inputGate g"
    using r that by simp
  have only: "inputGate g \<and> 0 \<le> duration p g \<and> duration p g \<le> tapRate g \<and>
            previousTapTime (fst (stop e (p, g))) = now g"
    if "previousTapTime (fst (stop e (p, g))) \<noteq> previousTapTime p"
  proof (cases "inputGate g \<and> 0 \<le> duration p g \<and> duration p g \<le> tapRate g")
    case True
    then show ?thesis using r by simp
  next
    case False
    then have "previousTapTime (fst (stop e (p, g))) = previousTapTime p"
      using r by auto
    then show ?thesis using that by simp
  qed
  show ?thesis using under only by blast
qed

lemma secondPress_fields:
  "\<not> stateReset (fst secondPress)" "\<not> isUp (fst secondPress)"
  "timeDown (fst secondPress) = 1100" "previousTapTime (fst secondPress) = 1050"
  "now (snd secondPress) = 1150" "tapRate (snd secondPress) = 200"
  "doubleTapRate (snd secondPress) = 300"
  "multiInputOverride (snd secondPress) = MOUSE_TOUCH_COMBINE"
  "trace (snd secondPress) =
     [OnDown, ResetSpeed 5 5, OnUp, OnTap False, CallAllReleasedHandler, OnDown, ResetSpeed 5 5]"
  by (simp_all add: secondPress_def example_simps)

text \<open>The second release, 100 ms after the first tap, is a double tap.\<close>

theorem stop_tap_under_gate_witness:
  "\<not> stateReset (fst secondPress) \<and>
   inputGate (snd secondPress) \<and>
   trace (snd (stop (exampleEvent 5 5) secondPress)) =
     [OnDown, ResetSpeed 5 5, OnUp, OnTap False, CallAllReleasedHandler, OnDown, ResetSpeed 5 5,
      OnUp, OnTap True, CallAllReleasedHandler] \<and>
   previousTapTime (fst secondPress) = 1050 \<and>
   previousTapTime (fst (stop (exampleEvent 5 5) secondPress)) = 1150"
proof -
  obtain q h where sp: "secondPress = (q, h)" by (cases secondPress)
  have f: "\<not> stateReset q" "\<not> isUp q" "timeDown q = 1100" "previousTapTime q = 1050"
    "now h = 1150" "tapRate h = 200" "doubleTapRate h = 300"
    "multiInputOverride h = MOUSE_TOUCH_COMBINE"
    "trace h =
       [OnDown, ResetSpeed 5 5, OnUp, OnTap False, CallAllReleasedHandler, OnDown, ResetSpeed 5 5]"
    using secondPress_fields by (simp_all add: sp)
  have gate: "inputGate h" using f by (simp add: inputGate_def)
  have d: "duration q h = 50" using f by (simp add: duration_def)
  have u: "trace (snd (stop (exampleEvent 5 5) (q, h))) =
             trace h @
             OnUp # (if 0 \<le> duration q h \<and> duration q h \<le> tapRate h
                     then [OnTap (now h - previousTapTime q < doubleTapRate h)] else []) @
             [CallAllReleasedHandler] \<and>
           previousTapTime (fst (stop (exampleEvent 5 5) (q, h))) =
             (if 0 \<le> duration q h \<and> duration q h \<le> tapRate h
              then now h else previousTapTime q) \<and>
           timeUp (fst (stop (exampleEvent 5 5) (q, h))) = now h"
    using stop_tap_under_gate [OF f(1), of h "exampleEvent 5 5"] gate by blast
  have tr: "trace (snd (stop (exampleEvent 5 5) (q, h))) =
     [OnDown, ResetSpeed 5 5, OnUp, OnTap False, CallAllReleasedHandler, OnDown, ResetSpeed 5 5,
      OnUp, OnTap True, CallAllReleasedHandler]"
    using u f by (simp add: d)
  have pt: "previousTapTime (fst (stop (exampleEvent 5 5) (q, h))) = 1150"
    using u f by (simp add: d)
  show ?thesis using f(1,4) gate tr pt by (simp add: sp)
qed

text \<open>
  Touch overrides the mouse, and a finger is down. The release of the mouse, pressed
  at 1020 and released at 1050, is not suppressed and its duration, 30, lies in
  \<open>[0, tapRate]\<close>, yet neither the up signal nor a tap is dispatched for it: the trace
  holds the down signal of the finger and the broadcast of the release only.
\<close>

theorem stop_tap_counterexample:
  "\<not> stateReset (fst mouseWhileTouching) \<and>
   0 \<le> duration (fst mouseWhileTouching) (snd mouseWhileTouching) \<and>
   duration (fst mouseWhileTouching) (snd mouseWhileTouching) \<le> tapRate (snd mouseWhileTouching) \<and>
   trace (snd (stop (exampleEvent 9 9) mouseWhileTouching)) =
     [OnDown, ResetSpeed 5 5, CallAllReleasedHandler]"
  by (simp add: mouseWhileTouching_def touchDown_def example_simps)

text \<open>
  The finger itself, released at 1050: \<open>start\<close> evaluates the multi-input test before
  it counts the pointer in \<open>currentPointers\<close>, \<open>stop\<close> evaluates it before it takes
  the pointer out again. The press has dispatched the down signal; the release
  dispatches neither the up signal nor a tap.
\<close>

lemma touch_release_after_own_press:
  "currentPointers (snd touchPressed) = 1 \<and>
   trace (snd touchPressed) = [OnDown, ResetSpeed 5 5] \<and>
   trace (snd (stop (exampleEvent 5 5) touchPressed)) =
     [OnDown, ResetSpeed 5 5, CallAllReleasedHandler]"
  by (simp add: touchPressed_def touchDown_def example_simps)

section \<open>The two loops of the resolver\<close>

text \<open>A visit writes no field of an object but \<open>checked\<close>; the second loop writes none.\<close>

lemma visit1_static:
  assumes "\<And>h v. f (h\<lparr>checked := v\<rparr>) = f h"
  shows "f (handlers (snd (visit1 fc i (b, g))) j) = f (handlers g j)"
  by (simp add: visit1_def Let_def emit_def assms)

lemma visit2_handlers: "handlers (snd (visit2 fc i (b, g))) = handlers g"
  by (simp add: visit2_def Let_def emit_def)

lemma pass1_static:
  assumes "\<And>h v. f (h\<lparr>checked := v\<rparr>) = f h"
  shows "f (handlers (snd (pass1 fc xs (b, g))) j) = f (handlers g j)"
proof (induction xs arbitrary: b g)
  case Nil
  show ?case by simp
next
  case (Cons i xs)
  obtain b1 g1 where v: "visit1 fc i (b, g) = (b1, g1)" by (cases "visit1 fc i (b, g)")
  have "f (handlers g1 j) = f (handlers g j)"
    using visit1_static [of f fc i b g j, OF assms] v by simp
  then show ?case using Cons.IH [of b1 g1] v by simp
qed

lemma pass2_handlers: "handlers (snd (pass2 fc xs (b, g))) = handlers g"
proof (induction xs arbitrary: b g)
  case Nil
  show ?case by simp
next
  case (Cons i xs)
  obtain b1 g1 where v: "visit2 fc i (b, g) = (b1, g1)" by (cases "visit2 fc i (b, g)")
  have "handlers g1 = handlers g" using visit2_handlers [of fc i b g] v by simp
  then show ?case using Cons.IH [of b1 g1] v by simp
qed

lemma setAll_checked_static:
  assumes "\<And>h v. f (h\<lparr>checked := v\<rparr>) = f h"
  shows "f (handlers (setAll_checked v g) j) = f (handlers g j)"
  by (simp add: setAll_checked_def assms)

lemma firstPass_static:
  assumes "\<And>h v. f (h\<lparr>checked := v\<rparr>) = f h"
  shows "f (handlers (snd (firstPass fc g)) j) = f (handlers g j)"
  using pass1_static [of f fc _ initialBest "setAll_checked False g" j, OF assms]
    setAll_checked_static [of f False g j, OF assms]
  by (simp add: firstPass_def Let_def)

lemma firstPass_items: "interactiveItems (snd (firstPass fc g)) = interactiveItems g"
  by (rule firstPass_gfield) simp_all

lemma scan_static:
  assumes "\<And>h v. f (h\<lparr>checked := v\<rparr>) = f h"
  shows "f (handlers (snd (scan fc g)) j) = f (handlers g j)"
proof -
  obtain b1 g1 where fp: "firstPass fc g = (b1, g1)" by (cases "firstPass fc g")
  have "f (handlers g1 j) = f (handlers g j)"
    using firstPass_static [of f fc g j, OF assms] fp by simp
  then show ?thesis using pass2_handlers [of fc "interactiveItems g1" b1 g1]
    by (simp add: scan_def Let_def fp)
qed

text \<open>The first loop only sets \<open>checked\<close>; it never clears it.\<close>

lemma visit1_checked_mono:
  "checked (handlers g j) \<Longrightarrow> checked (handlers (snd (visit1 fc i (b, g))) j)"
  by (simp add: visit1_def Let_def emit_def)

lemma pass1_checked_mono:
  "checked (handlers g j) \<Longrightarrow> checked (handlers (snd (pass1 fc xs (b, g))) j)"
proof (induction xs arbitrary: b g)
  case Nil
  then show ?case by simp
next
  case (Cons i xs)
  obtain b1 g1 where v: "visit1 fc i (b, g) = (b1, g1)" by (cases "visit1 fc i (b, g)")
  have "checked (handlers g1 j)" using visit1_checked_mono [OF Cons.prems, of fc i b] v by simp
  then show ?case using Cons.IH [of g1 b1] v by simp
qed

lemma pass1_append: "pass1 fc (xs @ ys) s = pass1 fc ys (pass1 fc xs s)"
  by (induction xs arbitrary: s) simp_all

lemma pass2_append: "pass2 fc (xs @ ys) s = pass2 fc ys (pass2 fc xs s)"
  by (induction xs arbitrary: s) simp_all

text \<open>A checked object is skipped by the second loop.\<close>

lemma visit2_checked: "checked (handlers g i) \<Longrightarrow> visit2 fc i (b, g) = (b, g)"
  by (simp add: visit2_def)

text \<open>What one visit of the first loop does to the flag of any object.\<close>

lemma visit1_checked:
  "checked (handlers (snd (visit1 fc i (b, g))) j) =
     (checked (handlers g j) \<or>
      (j = i \<and> validForInput (handlers g i) (highestInputPriorityID b) (highestRenderOrderID b) False))"
  by (simp add: visit1_def Let_def emit_def)

lemma pass1_checked_notin:
  "i \<notin> set xs \<Longrightarrow>
   checked (handlers (snd (pass1 fc xs (b, g))) i) = checked (handlers g i)"
proof (induction xs arbitrary: b g)
  case Nil
  show ?case by simp
next
  case (Cons j xs)
  obtain b1 g1 where v: "visit1 fc j (b, g) = (b1, g1)" by (cases "visit1 fc j (b, g)")
  have "j \<noteq> i" "i \<notin> set xs" using Cons.prems by auto
  then show ?case using Cons.IH [of b1 g1] visit1_checked [of fc j b g i] v by simp
qed

lemma visit2_unchecked:
  assumes "\<not> checked (handlers g i)"
      and "validForInput (handlers g i) (highestInputPriorityID b) (highestRenderOrderID b) True"
  shows "trace (snd (visit2 fc i (b, g))) = trace g @ [testCall fc False i]"
  using assms by (simp add: visit2_def Let_def emit_def)

text \<open>
  C3, as the code has it. One visit of the first loop sets \<open>checked\<close> of the visited
  node exactly when the node passes \<^verbatim>\<open>validForInput(..., false)\<close> against the best
  found so far, whatever its overlap test then returns, and writes the flag of no other
  node. So a node that passes the check when it is visited is checked at the end of the
  first loop, and the second loop, at whatever point of its traversal it reaches the
  node, does nothing for it. A node that fails the check when it is visited, that
  occurs once in the traversal and whose flag was cleared before the loop, is visited
  and still unchecked when the second loop reaches it; the second loop then runs its
  test if the node passes \<^verbatim>\<open>validForInput(..., true)\<close> against the best at that
  point.
\<close>

theorem pass1_marks_valid_nodes:
  "checked (handlers (snd (visit1 fc i (b, g))) j) =
     (checked (handlers g j) \<or>
      (j = i \<and> validForInput (handlers g i) (highestInputPriorityID b) (highestRenderOrderID b) False)) \<and>
   (validForInput (handlers (snd (pass1 fc xs s)) i)
      (highestInputPriorityID (fst (pass1 fc xs s)))
      (highestRenderOrderID (fst (pass1 fc xs s))) False \<longrightarrow>
    checked (handlers (snd (pass1 fc (xs @ i # ys) s)) i) \<and>
    visit2 fc i (pass2 fc zs (pass1 fc (xs @ i # ys) s)) =
      pass2 fc zs (pass1 fc (xs @ i # ys) s)) \<and>
   (\<not> validForInput (handlers (snd (pass1 fc xs s)) i)
        (highestInputPriorityID (fst (pass1 fc xs s)))
        (highestRenderOrderID (fst (pass1 fc xs s))) False \<and>
    i \<notin> set xs \<and> i \<notin> set ys \<and> \<not> checked (handlers (snd s) i) \<longrightarrow>
    \<not> checked (handlers (snd (pass1 fc (xs @ i # ys) s)) i) \<and>
    \<not> checked (handlers (snd (pass2 fc zs (pass1 fc (xs @ i # ys) s))) i) \<and>
    (validForInput (handlers (snd (pass2 fc zs (pass1 fc (xs @ i # ys) s))) i)
       (highestInputPriorityID (fst (pass2 fc zs (pass1 fc (xs @ i # ys) s))))
       (highestRenderOrderID (fst (pass2 fc zs (pass1 fc (xs @ i # ys) s)))) True \<longrightarrow>
     trace (snd (visit2 fc i (pass2 fc zs (pass1 fc (xs @ i # ys) s)))) =
       trace (snd (pass2 fc zs (pass1 fc (xs @ i # ys) s))) @ [testCall fc False i]))"
proof -
  obtain b1 g1 where s1: "pass1 fc xs s = (b1, g1)" by (cases "pass1 fc xs s")
  obtain b2 g2 where s2: "visit1 fc i (b1, g1) = (b2, g2)" by (cases "visit1 fc i (b1, g1)")
  obtain b3 g3 where s3: "pass1 fc ys (b2, g2) = (b3, g3)" by (cases "pass1 fc ys (b2, g2)")
  obtain b4 g4 where s4: "pass2 fc zs (b3, g3) = (b4, g4)" by (cases "pass2 fc zs (b3, g3)")
  have whole: "pass1 fc (xs @ i # ys) s = (b3, g3)"
    by (simp add: pass1_append s1 s2 s3)
  have h4: "handlers g4 = handlers g3" using pass2_handlers [of fc zs b3 g3] s4 by simp
  have c2: "checked (handlers g2 i) =
     (checked (handlers g1 i) \<or>
      validForInput (handlers g1 i) (highestInputPriorityID b1) (highestRenderOrderID b1) False)"
    using visit1_checked [of fc i b1 g1 i] s2 by simp
  have valid: "checked (handlers g3 i) \<and> visit2 fc i (b4, g4) = (b4, g4)"
    if v: "validForInput (handlers g1 i) (highestInputPriorityID b1) (highestRenderOrderID b1) False"
  proof -
    have "checked (handlers g2 i)" using c2 v by simp
    then have c3: "checked (handlers g3 i)"
      using pass1_checked_mono [of g2 i fc ys b2] s3 by simp
    then have "checked (handlers g4 i)" using h4 by simp
    then show ?thesis using c3 visit2_checked [of g4 i fc b4] by simp
  qed
  have invalid: "\<not> checked (handlers g3 i) \<and> \<not> checked (handlers g4 i) \<and>
      (validForInput (handlers g4 i) (highestInputPriorityID b4) (highestRenderOrderID b4) True \<longrightarrow>
       trace (snd (visit2 fc i (b4, g4))) = trace g4 @ [testCall fc False i])"
    if n: "\<not> validForInput (handlers g1 i) (highestInputPriorityID b1) (highestRenderOrderID b1) False"
      and x: "i \<notin> set xs" and y: "i \<notin> set ys" and c: "\<not> checked (handlers (snd s) i)"
  proof -
    have "\<not> checked (handlers g1 i)"
      using pass1_checked_notin [OF x, of fc "fst s" "snd s"] s1 c by simp
    then have "\<not> checked (handlers g2 i)" using c2 n by simp
    then have c3: "\<not> checked (handlers g3 i)"
      using pass1_checked_notin [OF y, of fc b2 g2] s3 by simp
    then have c4: "\<not> checked (handlers g4 i)" using h4 by simp
    show ?thesis using c3 c4 visit2_unchecked [OF c4, of b4 fc] by simp
  qed
  show ?thesis
    using visit1_checked [of fc i b g j] valid invalid
    by (simp add: whole s1 s4)
qed

text \<open>
  One object that requires the exact test and lies under the pointer: the first loop
  visits it and leaves it unchecked, and the second loop tests it.
\<close>

theorem pass1_marks_counterexample:
  "\<not> checked (handlers (snd (firstPass False
        (exampleGame 1000 MOUSE_TOUCH_COMBINE [0] (\<lambda>_. exampleHandler 0 0 True True True)))) 0) \<and>
   trace (snd (processInteractiveObjects False
        (Pointer 0, exampleGame 1000 MOUSE_TOUCH_COMBINE [0] (\<lambda>_. exampleHandler 0 0 True True True))))
     = [CheckPointerOver 0 False, PointerOverHandler 0]"
  by (simp add: processInteractiveObjects_def scan_def firstPass_def setAll_checked_def
      visit1_def visit2_def validForInput_def overlaps_def testCall_def resolution_def
      initialBest_def Number_MAX_SAFE_INTEGER_def emit_def Let_def
      exampleGame_def exampleHandler_def Pointer_def)

text \<open>
  Object 0 needs no exact test and is not under the pointer; object 2 requires the
  exact test. Object 0 passes the check, fails its overlap test and is checked all the
  same; object 2 fails the check and stays unchecked.
\<close>

theorem pass1_marks_valid_nodes_witness:
  "\<not> overlaps False True (exampleHandler 5 0 False False True) \<and>
   checked (handlers (snd (firstPass False
      (exampleGame 1000 MOUSE_TOUCH_COMBINE [0, 1, 2]
         (\<lambda>i. if i = 0 then exampleHandler 5 0 False False True
               else if i = 1 then exampleHandler 1 0 False True True
               else exampleHandler 7 0 True True True)))) 0) \<and>
   \<not> checked (handlers (snd (firstPass False
      (exampleGame 1000 MOUSE_TOUCH_COMBINE [0, 1, 2]
         (\<lambda>i. if i = 0 then exampleHandler 5 0 False False True
               else if i = 1 then exampleHandler 1 0 False True True
               else exampleHandler 7 0 True True True)))) 2)"
proof -
  let ?g = "exampleGame 1000 MOUSE_TOUCH_COMBINE [0, 1, 2]
         (\<lambda>i. if i = 0 then exampleHandler 5 0 False False True
               else if i = 1 then exampleHandler 1 0 False True True
               else exampleHandler 7 0 True True True)"
  let ?s = "(initialBest, setAll_checked False ?g)"
  have fp0: "firstPass False ?g = pass1 False ([] @ 0 # [1, 2]) ?s"
    by (simp add: firstPass_def Let_def setAll_checked_def exampleGame_def)
  have fp2: "firstPass False ?g = pass1 False ([0, 1] @ 2 # []) ?s"
    by (simp add: firstPass_def Let_def setAll_checked_def exampleGame_def)
  have v0: "validForInput (handlers (snd (pass1 False [] ?s)) 0)
             (highestInputPriorityID (fst (pass1 False [] ?s)))
             (highestRenderOrderID (fst (pass1 False [] ?s))) False"
    by (simp add: setAll_checked_def validForInput_def initialBest_def
        exampleGame_def exampleHandler_def)
  have "pixelPerfect (handlers (snd (pass1 False [0, 1] ?s)) 2) =
        pixelPerfect (handlers (setAll_checked False ?g) 2)"
    by (rule pass1_static) simp
  then have pp: "pixelPerfect (handlers (snd (pass1 False [0, 1] ?s)) 2)"
    by (simp add: setAll_checked_def exampleGame_def exampleHandler_def)
  have v2: "\<not> validForInput (handlers (snd (pass1 False [0, 1] ?s)) 2)
             (highestInputPriorityID (fst (pass1 False [0, 1] ?s)))
             (highestRenderOrderID (fst (pass1 False [0, 1] ?s))) False"
    using pp unfolding validForInput_def by simp
  have c: "\<not> checked (handlers (snd ?s) 2)"
    by (simp add: setAll_checked_def exampleGame_def)
  have n2: "2 \<notin> set [0, 1::nat]" "2 \<notin> set ([]::nat list)" by simp_all
  note t0 = pass1_marks_valid_nodes [of False 0 initialBest ?g 0 "[]" ?s "[1, 2]" "[]"]
  note t2 = pass1_marks_valid_nodes [of False 2 initialBest ?g 2 "[0, 1]" ?s "[]" "[]"]
  have a: "checked (handlers (snd (firstPass False ?g)) 0)"
    using t0 [THEN conjunct2, THEN conjunct1, THEN mp, OF v0, THEN conjunct1]
    unfolding fp0 .
  have b: "\<not> checked (handlers (snd (firstPass False ?g)) 2)"
    using t2 [THEN conjunct2, THEN conjunct2, THEN mp,
        OF conjI [OF v2 conjI [OF n2(1) conjI [OF n2(2) c]]], THEN conjunct1]
    unfolding fp2 .
  have o: "\<not> overlaps False True (exampleHandler 5 0 False False True)"
    by (simp add: overlaps_def exampleHandler_def)
  show ?thesis using a b o by simp
qed

section \<open>The resolution step\<close>

lemma fold_perform_trace:
  "trace (snd (fold perform acts (p, g))) = trace g @ callsOf acts"
proof (induction acts arbitrary: p g)
  case Nil
  show ?case by simp
next
  case (Cons a acts)
  show ?case
  proof (cases a)
    case (Notify c)
    then show ?thesis using Cons.IH [of p "emit c g"] by (simp add: emit_def)
  next
    case (AssignTarget t)
    then show ?thesis using Cons.IH [of "p\<lparr>targetObject := t\<rparr>" g] by simp
  qed
qed

lemma fold_perform_target:
  "targetObject (fst (fold perform acts (p, g))) =
     (if assignmentsOf acts = [] then targetObject p else last (assignmentsOf acts))"
proof (induction acts arbitrary: p g)
  case Nil
  show ?case by simp
next
  case (Cons a acts)
  show ?case
  proof (cases a)
    case (Notify c)
    then show ?thesis using Cons.IH [of p "emit c g"] by simp
  next
    case (AssignTarget t)
    then show ?thesis using Cons.IH [of "p\<lparr>targetObject := t\<rparr>" g] by simp
  qed
qed

lemma notificationCalls_inj:
  "notificationCalls m = notificationCalls n \<Longrightarrow> m = n"
  by (cases m; cases n) simp_all

lemma resolution_assignments:
  "length (assignmentsOf (resolution old found g)) \<le> 1"
  by (simp add: resolution_def split: option.splits)

lemma pio_unfold:
  "processInteractiveObjects fc (p, g) =
     fold perform
       (resolution (targetObject p) (highestRenderObject (fst (scan fc g))) (snd (scan fc g)))
       (p\<lparr>highest := Some (fst (scan fc g))\<rparr>, snd (scan fc g))"
  by (simp add: processInteractiveObjects_def split: prod.splits)

lemma resolution_calls:
  "callsOf (resolution old found g) = notificationCalls (expectedNotification old found)"
  by (cases old; cases found) (simp_all add: resolution_def)

lemma targetsDuring_ends:
  "hd (targetsDuring acts s) = targetObject (fst s)"
  "last (targetsDuring acts s) = targetObject (fst (fold perform acts s))"
proof -
  show "hd (targetsDuring acts s) = targetObject (fst s)" by (cases acts) simp_all
  have ne: "targetsDuring acts s \<noteq> []" for acts s by (cases acts) simp_all
  show "last (targetsDuring acts s) = targetObject (fst (fold perform acts s))"
    by (induction acts arbitrary: s) (simp_all add: ne)
qed

lemma resolution_targets:
  "length (remdups_adj (targetsDuring (resolution (targetObject q) found g) (q, g))) \<le> 2"
proof (cases found)
  case None
  then show ?thesis by (cases "targetObject q") (simp_all add: resolution_def)
next
  case (Some h)
  show ?thesis
  proof (cases "targetObject q")
    case None
    then show ?thesis using Some by (simp add: resolution_def)
  next
    case old: (Some t)
    show ?thesis using Some old by (cases "t = h") (simp_all add: resolution_def)
  qed
qed

lemma resolution_final_target:
  "targetObject (fst (fold perform (resolution (targetObject q) found g) (q, g))) =
     (case found of
        None \<Rightarrow> None
      | Some h \<Rightarrow> if targetObject q = Some h \<and> \<not> updateResult (handlers g h) then None else Some h)"
  by (simp add: fold_perform_target resolution_def split: option.splits)

text \<open>
  C4. The calls that a resolution makes after its two loops are exactly one of the five
  notification patterns, the one the claim names for the old target and the object the
  loops found: nothing, pointer-over on the new target, pointer-out on the old target,
  pointer-out on the old then pointer-over on the new target, or the update of the
  unchanged target. After the call the target is the object found, or none when nothing
  was found or when the unchanged target's update returned \<open>false\<close>. While the
  resolution step runs, \<^verbatim>\<open>targetObject\<close> starts at the old target, ends at the new
  one and changes its value at most once: its successive values, with repetitions
  dropped, are at most two, and the branch taken assigns it at most once.
\<close>

theorem resolution_notifies_once:
  "trace (snd (processInteractiveObjects fromClick (p, g))) =
     trace (snd (scan fromClick g)) @
     notificationCalls
       (expectedNotification (targetObject p) (highestRenderObject (fst (scan fromClick g)))) \<and>
   (\<exists>!n. trace (snd (processInteractiveObjects fromClick (p, g))) =
            trace (snd (scan fromClick g)) @ notificationCalls n) \<and>
   targetObject (fst (processInteractiveObjects fromClick (p, g))) =
     (case highestRenderObject (fst (scan fromClick g)) of
        None \<Rightarrow> None
      | Some h \<Rightarrow>
          if targetObject p = Some h \<and> \<not> updateResult (handlers g h) then None else Some h) \<and>
   processInteractiveObjects fromClick (p, g) =
     fold perform
       (resolution (targetObject p) (highestRenderObject (fst (scan fromClick g)))
          (snd (scan fromClick g)))
       (p\<lparr>highest := Some (fst (scan fromClick g))\<rparr>, snd (scan fromClick g)) \<and>
   hd (targetsDuring
        (resolution (targetObject p) (highestRenderObject (fst (scan fromClick g)))
           (snd (scan fromClick g)))
        (p\<lparr>highest := Some (fst (scan fromClick g))\<rparr>, snd (scan fromClick g))) = targetObject p \<and>
   last (targetsDuring
        (resolution (targetObject p) (highestRenderObject (fst (scan fromClick g)))
           (snd (scan fromClick g)))
        (p\<lparr>highest := Some (fst (scan fromClick g))\<rparr>, snd (scan fromClick g))) =
     targetObject (fst (processInteractiveObjects fromClick (p, g))) \<and>
   length (remdups_adj (targetsDuring
        (resolution (targetObject p) (highestRenderObject (fst (scan fromClick g)))
           (snd (scan fromClick g)))
        (p\<lparr>highest := Some (fst (scan fromClick g))\<rparr>, snd (scan fromClick g)))) \<le> 2 \<and>
   length (assignmentsOf
      (resolution (targetObject p) (highestRenderObject (fst (scan fromClick g)))
         (snd (scan fromClick g)))) \<le> 1"
proof -
  let ?found = "highestRenderObject (fst (scan fromClick g))"
  let ?g2 = "snd (scan fromClick g)"
  let ?q = "p\<lparr>highest := Some (fst (scan fromClick g))\<rparr>"
  let ?acts = "resolution (targetObject p) ?found ?g2"
  have q: "targetObject ?q = targetObject p" by simp
  have unf: "processInteractiveObjects fromClick (p, g) = fold perform ?acts (?q, ?g2)"
    by (rule pio_unfold)
  have tr: "trace (snd (processInteractiveObjects fromClick (p, g))) =
            trace ?g2 @ notificationCalls (expectedNotification (targetObject p) ?found)"
    by (simp add: unf fold_perform_trace resolution_calls)
  have one: "\<exists>!n. trace (snd (processInteractiveObjects fromClick (p, g))) =
            trace ?g2 @ notificationCalls n"
  proof (rule ex1I [of _ "expectedNotification (targetObject p) ?found"])
    show "trace (snd (processInteractiveObjects fromClick (p, g))) =
            trace ?g2 @ notificationCalls (expectedNotification (targetObject p) ?found)"
      by (rule tr)
  next
    fix m
    assume "trace (snd (processInteractiveObjects fromClick (p, g))) =
            trace ?g2 @ notificationCalls m"
    then have "notificationCalls m =
               notificationCalls (expectedNotification (targetObject p) ?found)"
      by (simp add: tr)
    then show "m = expectedNotification (targetObject p) ?found"
      by (rule notificationCalls_inj)
  qed
  have upd: "updateResult (handlers ?g2 h) = updateResult (handlers g h)" for h
    by (rule scan_static) simp
  have fin: "targetObject (fst (processInteractiveObjects fromClick (p, g))) =
     (case ?found of
        None \<Rightarrow> None
      | Some h \<Rightarrow>
          if targetObject p = Some h \<and> \<not> updateResult (handlers g h) then None else Some h)"
    using resolution_final_target [of ?q ?found ?g2]
    by (simp add: unf upd split: option.splits)
  have h: "hd (targetsDuring ?acts (?q, ?g2)) = targetObject p"
    by (simp add: targetsDuring_ends)
  have l: "last (targetsDuring ?acts (?q, ?g2)) =
           targetObject (fst (processInteractiveObjects fromClick (p, g)))"
    by (simp add: targetsDuring_ends unf)
  have d: "length (remdups_adj (targetsDuring ?acts (?q, ?g2))) \<le> 2"
    using resolution_targets [of ?q ?found ?g2] by simp
  have a: "length (assignmentsOf ?acts) \<le> 1" by (rule resolution_assignments)
  show ?thesis using tr one fin unf h l d a by blast
qed

text \<open>
  The target is object 0; the pointer has left it and lies over object 1. The
  resolution calls pointer-out on object 0, then pointer-over on object 1, and object 1
  is the target.
\<close>

theorem resolution_notifies_once_witness:
  "trace (snd (processInteractiveObjects False
     ((Pointer 0)\<lparr>targetObject := Some 0\<rparr>,
      exampleGame 1000 MOUSE_TOUCH_COMBINE [0, 1]
        (\<lambda>i. if i = 0 then exampleHandler 0 0 False False True
              else exampleHandler 0 0 False True True)))) =
     [CheckPointerOver 0 True, CheckPointerOver 1 True, PointerOutHandler 0, PointerOverHandler 1] \<and>
   targetObject (fst (processInteractiveObjects False
     ((Pointer 0)\<lparr>targetObject := Some 0\<rparr>,
      exampleGame 1000 MOUSE_TOUCH_COMBINE [0, 1]
        (\<lambda>i. if i = 0 then exampleHandler 0 0 False False True
              else exampleHandler 0 0 False True True)))) = Some 1"
proof -
  let ?g = "exampleGame 1000 MOUSE_TOUCH_COMBINE [0, 1]
        (\<lambda>i. if i = 0 then exampleHandler 0 0 False False True
              else exampleHandler 0 0 False True True)"
  let ?p = "(Pointer 0)\<lparr>targetObject := Some 0\<rparr>"
  have f: "highestRenderObject (fst (scan False ?g)) = Some 1"
    by (simp add: scan_def firstPass_def setAll_checked_def visit1_def visit2_def
        validForInput_def overlaps_def testCall_def initialBest_def
        Number_MAX_SAFE_INTEGER_def emit_def Let_def exampleGame_def exampleHandler_def)
  have t: "trace (snd (scan False ?g)) = [CheckPointerOver 0 True, CheckPointerOver 1 True]"
    by (simp add: scan_def firstPass_def setAll_checked_def visit1_def visit2_def
        validForInput_def overlaps_def testCall_def initialBest_def
        Number_MAX_SAFE_INTEGER_def emit_def Let_def exampleGame_def exampleHandler_def)
  have o: "targetObject ?p = Some 0" by simp
  note th = resolution_notifies_once [of False ?p ?g]
  have a: "trace (snd (processInteractiveObjects False (?p, ?g))) =
     [CheckPointerOver 0 True, CheckPointerOver 1 True, PointerOutHandler 0, PointerOverHandler 1]"
    using th [THEN conjunct1] unfolding f t o by simp
  have b: "targetObject (fst (processInteractiveObjects False (?p, ?g))) = Some 1"
    using th [THEN conjunct2, THEN conjunct2, THEN conjunct1] unfolding f o by simp
  show ?thesis using a b by simp
qed

section \<open>Exact tests\<close>

lemma exactTests_append: "exactTests i (xs @ ys) = exactTests i xs @ exactTests i ys"
  by (simp add: exactTests_def)

lemma visit1_exactTests:
  "exactTests i (trace (snd (visit1 fc j (b, g)))) = exactTests i (trace g)"
  by (simp add: visit1_def Let_def emit_def exactTests_def testCall_def)

lemma pass1_exactTests:
  "exactTests i (trace (snd (pass1 fc xs (b, g)))) = exactTests i (trace g)"
proof (induction xs arbitrary: b g)
  case Nil
  show ?case by simp
next
  case (Cons j xs)
  obtain b1 g1 where v: "visit1 fc j (b, g) = (b1, g1)" by (cases "visit1 fc j (b, g)")
  have "exactTests i (trace g1) = exactTests i (trace g)"
    using visit1_exactTests [of i fc j b g] v by simp
  then show ?case using Cons.IH [of b1 g1] v by simp
qed

lemma firstPass_exactTests:
  "exactTests i (trace (snd (firstPass fc g))) = exactTests i (trace g)"
  using pass1_exactTests [of i fc _ initialBest "setAll_checked False g"]
  by (simp add: firstPass_def Let_def setAll_checked_def)

lemma visit2_exactTests_other:
  "j \<noteq> i \<Longrightarrow> exactTests i (trace (snd (visit2 fc j (b, g)))) = exactTests i (trace g)"
  by (simp add: visit2_def Let_def emit_def exactTests_def testCall_def)

lemma visit2_exactTests_self:
  "length (exactTests i (trace (snd (visit2 fc i (b, g))))) \<le> length (exactTests i (trace g)) + 1"
  by (simp add: visit2_def Let_def emit_def exactTests_def testCall_def)

lemma pass2_exactTests_notin:
  "i \<notin> set xs \<Longrightarrow> exactTests i (trace (snd (pass2 fc xs (b, g)))) = exactTests i (trace g)"
proof (induction xs arbitrary: b g)
  case Nil
  show ?case by simp
next
  case (Cons j xs)
  obtain b1 g1 where v: "visit2 fc j (b, g) = (b1, g1)" by (cases "visit2 fc j (b, g)")
  have "j \<noteq> i" "i \<notin> set xs" using Cons.prems by auto
  then show ?case
    using Cons.IH [of b1 g1] visit2_exactTests_other [of j i fc b g] v by simp
qed

lemma pass2_exactTests_distinct:
  "distinct xs \<Longrightarrow>
   length (exactTests i (trace (snd (pass2 fc xs (b, g))))) \<le> length (exactTests i (trace g)) + 1"
proof (induction xs arbitrary: b g)
  case Nil
  show ?case by simp
next
  case (Cons j xs)
  obtain b1 g1 where v: "visit2 fc j (b, g) = (b1, g1)" by (cases "visit2 fc j (b, g)")
  show ?case
  proof (cases "j = i")
    case True
    then have "i \<notin> set xs" using Cons.prems by simp
    then have "exactTests i (trace (snd (pass2 fc xs (b1, g1)))) = exactTests i (trace g1)"
      by (rule pass2_exactTests_notin)
    moreover have "length (exactTests i (trace g1)) \<le> length (exactTests i (trace g)) + 1"
      using visit2_exactTests_self [of i fc b g] v True by simp
    ultimately show ?thesis using v by simp
  next
    case False
    then have "exactTests i (trace g1) = exactTests i (trace g)"
      using visit2_exactTests_other [of j i fc b g] v by simp
    moreover have "distinct xs" using Cons.prems by simp
    ultimately show ?thesis using Cons.IH [of b1 g1] v by simp
  qed
qed

text \<open>
  The best found only grows: an object that cannot pass \<^verbatim>\<open>validForInput\<close> against
  the best before a visit cannot pass it after the visit either.
\<close>

lemma visit2_keeps_invalid:
  assumes "\<not> validForInput (handlers g i) (highestInputPriorityID b) (highestRenderOrderID b) True"
      and "visit2 fc j (b, g) = (b1, g1)"
  shows "\<not> validForInput (handlers g1 i) (highestInputPriorityID b1) (highestRenderOrderID b1) True"
proof (cases "b1 = b")
  case True
  then show ?thesis using assms visit2_handlers [of fc j b g] by simp
next
  case False
  then have new: "validForInput (handlers g j) (highestInputPriorityID b) (highestRenderOrderID b) True"
    "highestInputPriorityID b1 = priorityID (handlers g j)"
    "highestRenderOrderID b1 = renderOrderID (handlers g j)"
    using assms(2) by (auto simp add: visit2_def Let_def emit_def split: if_splits)
  have h: "handlers g1 = handlers g" using visit2_handlers [of fc j b g] assms(2) by simp
  show ?thesis using assms(1) new unfolding h validForInput_def by auto
qed

lemma visit2_invalid_noop:
  "\<not> validForInput (handlers g i) (highestInputPriorityID b) (highestRenderOrderID b) True \<Longrightarrow>
   visit2 fc i (b, g) = (b, g)"
  by (simp add: visit2_def)

lemma pass2_exactTests_invalid:
  "\<not> validForInput (handlers g i) (highestInputPriorityID b) (highestRenderOrderID b) True \<Longrightarrow>
   exactTests i (trace (snd (pass2 fc xs (b, g)))) = exactTests i (trace g)"
proof (induction xs arbitrary: b g)
  case Nil
  show ?case by simp
next
  case (Cons j xs)
  obtain b1 g1 where v: "visit2 fc j (b, g) = (b1, g1)" by (cases "visit2 fc j (b, g)")
  have inv: "\<not> validForInput (handlers g1 i) (highestInputPriorityID b1) (highestRenderOrderID b1) True"
    using visit2_keeps_invalid [OF Cons.prems v] .
  have same: "exactTests i (trace g1) = exactTests i (trace g)"
  proof (cases "j = i")
    case True
    then show ?thesis using visit2_invalid_noop [OF Cons.prems, of fc] v by simp
  next
    case False
    then show ?thesis using visit2_exactTests_other [of j i fc b g] v by simp
  qed
  show ?case using Cons.IH [OF inv] same v by simp
qed

lemma resolution_exactTests: "exactTests i (callsOf (resolution old found g)) = []"
  by (simp add: resolution_def exactTests_def split: option.splits)

lemma pio_exactTests:
  "exactTests i (trace (snd (processInteractiveObjects fc (p, g)))) =
     exactTests i (trace (snd (scan fc g)))"
  by (simp add: pio_unfold fold_perform_trace exactTests_append resolution_exactTests)

text \<open>
  C2. In one resolution call over a set of distinct items, the exact test of a candidate
  is invoked at most once: the trace gains at most one exact test of it. It gains none
  when the candidate fails \<^verbatim>\<open>validForInput\<close> against the best that the first loop
  has established.
\<close>

theorem exact_test_at_most_once:
  assumes "distinct (interactiveItems g)"
  shows "length (exactTests i (trace (snd (processInteractiveObjects fromClick (p, g)))))
           \<le> length (exactTests i (trace g)) + 1 \<and>
         (\<not> validForInput (handlers (snd (firstPass fromClick g)) i)
              (highestInputPriorityID (fst (firstPass fromClick g)))
              (highestRenderOrderID (fst (firstPass fromClick g))) True \<longrightarrow>
          exactTests i (trace (snd (processInteractiveObjects fromClick (p, g))))
            = exactTests i (trace g))"
proof -
  obtain b1 g1 where fp: "firstPass fromClick g = (b1, g1)" by (cases "firstPass fromClick g")
  have items: "interactiveItems g1 = interactiveItems g"
    using firstPass_items [of fromClick g] fp by simp
  have t1: "exactTests i (trace g1) = exactTests i (trace g)"
    using firstPass_exactTests [of i fromClick g] fp by simp
  have sc: "scan fromClick g = pass2 fromClick (interactiveItems g) (b1, g1)"
    by (simp add: scan_def Let_def fp items)
  have most: "length (exactTests i (trace (snd (processInteractiveObjects fromClick (p, g)))))
           \<le> length (exactTests i (trace g)) + 1"
    using pass2_exactTests_distinct [OF assms, of i fromClick b1 g1] t1
    by (simp add: pio_exactTests sc)
  have none: "exactTests i (trace (snd (processInteractiveObjects fromClick (p, g))))
            = exactTests i (trace g)"
    if "\<not> validForInput (handlers g1 i) (highestInputPriorityID b1) (highestRenderOrderID b1) True"
    using pass2_exactTests_invalid [OF that, of fromClick "interactiveItems g"] t1
    by (simp add: pio_exactTests sc)
  show ?thesis using most none by (simp add: fp)
qed

text \<open>
  Object 0 needs no exact test, has priority 5 and lies under the pointer; object 1
  requires the exact test and has priority 1. The first loop makes object 0 the best,
  object 1 cannot beat it, and its exact test is never invoked.
\<close>

theorem exact_test_at_most_once_witness:
  "distinct (interactiveItems (exampleGame 1000 MOUSE_TOUCH_COMBINE [0, 1]
      (\<lambda>i. if i = 0 then exampleHandler 5 0 False True True
            else exampleHandler 1 0 True True True))) \<and>
   exactTests 1 (trace (snd (processInteractiveObjects False
     (Pointer 0, exampleGame 1000 MOUSE_TOUCH_COMBINE [0, 1]
      (\<lambda>i. if i = 0 then exampleHandler 5 0 False True True
            else exampleHandler 1 0 True True True))))) = []"
proof -
  let ?g = "exampleGame 1000 MOUSE_TOUCH_COMBINE [0, 1]
      (\<lambda>i. if i = 0 then exampleHandler 5 0 False True True
            else exampleHandler 1 0 True True True)"
  have d: "distinct (interactiveItems ?g)" by (simp add: exampleGame_def)
  have b: "highestInputPriorityID (fst (firstPass False ?g)) = 5"
    by (simp add: firstPass_def setAll_checked_def visit1_def validForInput_def overlaps_def
        testCall_def initialBest_def Number_MAX_SAFE_INTEGER_def emit_def Let_def
        exampleGame_def exampleHandler_def)
  have h: "priorityID (handlers (snd (firstPass False ?g)) 1) = 1"
    by (simp add: firstPass_static exampleGame_def exampleHandler_def)
  have v: "\<not> validForInput (handlers (snd (firstPass False ?g)) 1)
              (highestInputPriorityID (fst (firstPass False ?g)))
              (highestRenderOrderID (fst (firstPass False ?g))) True"
    unfolding validForInput_def b h by simp
  have t: "exactTests 1 (trace ?g) = []" by (simp add: exampleGame_def exactTests_def)
  show ?thesis
    using d v t exact_test_at_most_once [OF d, of 1 False "Pointer 0"] by simp
qed

section \<open>The winner of the first loop\<close>

lemma visit1_best: "fst (visit1 fc j (b, g)) = select1 fc g j b"
  by (simp add: visit1_def select1_def Let_def emit_def overlaps_def)

lemma validForInput_static:
  assumes "priorityID h' = priorityID h" "renderOrderID h' = renderOrderID h"
    "pixelPerfect h' = pixelPerfect h"
  shows "validForInput h' a r c = validForInput h a r c"
  using assms by (simp add: validForInput_def)

lemma overlaps_static:
  assumes "checkPointerDown h' = checkPointerDown h" "checkPointerOver h' = checkPointerOver h"
  shows "overlaps fc ft h' = overlaps fc ft h"
  using assms by (simp add: overlaps_def)

lemma visit1_validForInput:
  "validForInput (handlers (snd (visit1 fc i (b, g))) j) a r c = validForInput (handlers g j) a r c"
  by (rule validForInput_static) (simp_all add: visit1_static)

lemma visit1_overlaps:
  "overlaps fc' ft (handlers (snd (visit1 fc i (b, g))) j) = overlaps fc' ft (handlers g j)"
  by (rule overlaps_static) (simp_all add: visit1_static)

lemma select1_visit1: "select1 fc' (snd (visit1 fc i (b, g))) j c = select1 fc' g j c"
  by (simp add: select1_def visit1_validForInput visit1_overlaps visit1_static)

lemma select1_setAll: "select1 fc (setAll_checked v g) j c = select1 fc g j c"
proof -
  have "validForInput (handlers (setAll_checked v g) j) a r x = validForInput (handlers g j) a r x"
    for a r x
    by (rule validForInput_static) (simp_all add: setAll_checked_static)
  moreover have "overlaps fc True (handlers (setAll_checked v g) j) = overlaps fc True (handlers g j)"
    by (rule overlaps_static) (simp_all add: setAll_checked_static)
  ultimately show ?thesis by (simp add: select1_def setAll_checked_static)
qed

lemma fold_select1_cong:
  "(\<And>j c. select1 fc g1 j c = select1 fc g j c) \<Longrightarrow>
   fold (select1 fc g1) xs b = fold (select1 fc g) xs b"
  by (induction xs arbitrary: b) simp_all

lemma pass1_best: "fst (pass1 fc xs (b, g)) = fold (select1 fc g) xs b"
proof (induction xs arbitrary: b g)
  case Nil
  show ?case by simp
next
  case (Cons i xs)
  obtain b1 g1 where v: "visit1 fc i (b, g) = (b1, g1)" by (cases "visit1 fc i (b, g)")
  have b1: "b1 = select1 fc g i b" using visit1_best [of fc i b g] v by simp
  have g1: "select1 fc g1 j c = select1 fc g j c" for j c
    using select1_visit1 [of fc fc i b g j c] v by simp
  have "fst (pass1 fc xs (b1, g1)) = fold (select1 fc g1) xs b1" by (rule Cons.IH)
  also have "\<dots> = fold (select1 fc g) xs b1" using g1 by (rule fold_select1_cong)
  finally show ?case using v b1 by simp
qed

lemma firstPass_best:
  "fst (firstPass fc g) = fold (select1 fc g) (interactiveItems g) initialBest"
proof -
  have "fst (firstPass fc g) =
        fold (select1 fc (setAll_checked False g)) (interactiveItems g) initialBest"
    by (simp add: firstPass_def Let_def pass1_best) (simp add: setAll_checked_def)
  also have "\<dots> = fold (select1 fc g) (interactiveItems g) initialBest"
    by (rule fold_select1_cong) (rule select1_setAll)
  finally show ?thesis .
qed

text \<open>
  Object \<open>w\<close> lies under the pointer and outranks every other object of \<open>xs\<close> that
  does: once it is the best it stays the best, and as long as it can still beat the
  best, it becomes the best when it is visited.
\<close>

lemma select1_keeps_best:
  assumes "isBest w g b"
      and "j \<noteq> w \<and> overlaps fc True (handlers g j) \<longrightarrow>
           priorityID (handlers g j) < priorityID (handlers g w) \<or>
           (priorityID (handlers g j) = priorityID (handlers g w) \<and>
            renderOrderID (handlers g w) < renderOrderID (handlers g j))"
  shows "isBest w g (select1 fc g j b)"
  using assms by (auto simp add: isBest_def select1_def validForInput_def split: if_splits)

lemma select1_keeps_chance:
  assumes "validForInput (handlers g w) (highestInputPriorityID b) (highestRenderOrderID b) False
           \<or> isBest w g b"
      and "j \<noteq> w \<and> overlaps fc True (handlers g j) \<longrightarrow>
           priorityID (handlers g j) < priorityID (handlers g w) \<or>
           (priorityID (handlers g j) = priorityID (handlers g w) \<and>
            renderOrderID (handlers g w) < renderOrderID (handlers g j))"
  shows "validForInput (handlers g w) (highestInputPriorityID (select1 fc g j b))
           (highestRenderOrderID (select1 fc g j b)) False
         \<or> isBest w g (select1 fc g j b)"
  using assms by (auto simp add: isBest_def select1_def validForInput_def split: if_splits)

lemma select1_takes_winner:
  assumes "validForInput (handlers g w) (highestInputPriorityID b) (highestRenderOrderID b) False
           \<or> isBest w g b"
      and "overlaps fc True (handlers g w)"
  shows "isBest w g (select1 fc g w b)"
  using assms by (auto simp add: isBest_def select1_def validForInput_def split: if_splits)

lemma fold_select1_keeps_best:
  assumes "\<forall>j\<in>set xs. j \<noteq> w \<and> overlaps fc True (handlers g j) \<longrightarrow>
           priorityID (handlers g j) < priorityID (handlers g w) \<or>
           (priorityID (handlers g j) = priorityID (handlers g w) \<and>
            renderOrderID (handlers g w) < renderOrderID (handlers g j))"
      and "isBest w g b"
  shows "isBest w g (fold (select1 fc g) xs b)"
  using assms
proof (induction xs arbitrary: b)
  case Nil
  then show ?case by simp
next
  case (Cons j xs)
  have "isBest w g (select1 fc g j b)"
    using select1_keeps_best [OF Cons.prems(2), of j fc] Cons.prems(1) by simp
  then show ?case using Cons.IH [of "select1 fc g j b"] Cons.prems(1) by simp
qed

lemma fold_select1_finds_winner:
  assumes "\<forall>j\<in>set xs. j \<noteq> w \<and> overlaps fc True (handlers g j) \<longrightarrow>
           priorityID (handlers g j) < priorityID (handlers g w) \<or>
           (priorityID (handlers g j) = priorityID (handlers g w) \<and>
            renderOrderID (handlers g w) < renderOrderID (handlers g j))"
      and "validForInput (handlers g w) (highestInputPriorityID b) (highestRenderOrderID b) False
           \<or> isBest w g b"
      and "overlaps fc True (handlers g w)"
      and "w \<in> set xs"
  shows "isBest w g (fold (select1 fc g) xs b)"
  using assms
proof (induction xs arbitrary: b)
  case Nil
  then show ?case by simp
next
  case (Cons j xs)
  have rest: "\<forall>j\<in>set xs. j \<noteq> w \<and> overlaps fc True (handlers g j) \<longrightarrow>
           priorityID (handlers g j) < priorityID (handlers g w) \<or>
           (priorityID (handlers g j) = priorityID (handlers g w) \<and>
            renderOrderID (handlers g w) < renderOrderID (handlers g j))"
    using Cons.prems(1) by simp
  show ?case
  proof (cases "j = w")
    case True
    have "isBest w g (select1 fc g w b)"
      using select1_takes_winner [OF Cons.prems(2,3)] .
    then show ?thesis using fold_select1_keeps_best [OF rest] True by simp
  next
    case False
    then have in_rest: "w \<in> set xs" using Cons.prems(4) by simp
    have chance: "validForInput (handlers g w) (highestInputPriorityID (select1 fc g j b))
           (highestRenderOrderID (select1 fc g j b)) False
         \<or> isBest w g (select1 fc g j b)"
      using select1_keeps_chance [OF Cons.prems(2), of j fc] Cons.prems(1) by simp
    show ?thesis using Cons.IH [OF rest chance Cons.prems(3) in_rest] by simp
  qed
qed

section \<open>The second loop without exact candidates\<close>

lemma visit1_keeps_invalid:
  assumes "\<not> validForInput (handlers g i) (highestInputPriorityID b) (highestRenderOrderID b) True"
      and "visit1 fc j (b, g) = (b1, g1)"
  shows "\<not> validForInput (handlers g1 i) (highestInputPriorityID b1) (highestRenderOrderID b1) True"
proof -
  have b1: "b1 = select1 fc g j b" using visit1_best [of fc j b g] assms(2) by simp
  have h: "validForInput (handlers g1 i) a r c = validForInput (handlers g i) a r c" for a r c
    using visit1_validForInput [of fc j b g i a r c] assms(2) by simp
  show ?thesis using assms(1) unfolding h b1
    by (auto simp add: select1_def validForInput_def split: if_splits)
qed

lemma visit1_marks:
  assumes "\<not> pixelPerfect (handlers g i)" and "visit1 fc i (b, g) = (b1, g1)"
  shows "checked (handlers g1 i) \<or>
         \<not> validForInput (handlers g1 i) (highestInputPriorityID b1) (highestRenderOrderID b1) True"
proof (cases "validForInput (handlers g i) (highestInputPriorityID b) (highestRenderOrderID b) False")
  case True
  then have "checked (handlers g1 i)"
    using assms(2) by (auto simp add: visit1_def Let_def emit_def split: if_splits)
  then show ?thesis by simp
next
  case False
  then have "\<not> validForInput (handlers g i) (highestInputPriorityID b) (highestRenderOrderID b) True"
    using assms(1) by (simp add: validForInput_def)
  then show ?thesis using visit1_keeps_invalid [OF _ assms(2)] by simp
qed

lemma pass1_covers:
  assumes "\<forall>j\<in>set xs. \<not> pixelPerfect (handlers g j)"
      and "\<forall>j\<in>A. checked (handlers g j) \<or>
             \<not> validForInput (handlers g j) (highestInputPriorityID b) (highestRenderOrderID b) True"
      and "pass1 fc xs (b, g) = (b', g')"
  shows "\<forall>j\<in>A \<union> set xs. checked (handlers g' j) \<or>
             \<not> validForInput (handlers g' j) (highestInputPriorityID b') (highestRenderOrderID b') True"
  using assms
proof (induction xs arbitrary: b g A)
  case Nil
  then show ?case by simp
next
  case (Cons i xs)
  obtain b1 g1 where v: "visit1 fc i (b, g) = (b1, g1)" by (cases "visit1 fc i (b, g)")
  have rest: "pass1 fc xs (b1, g1) = (b', g')" using Cons.prems(3) v by simp
  have pp: "\<forall>j\<in>set xs. \<not> pixelPerfect (handlers g1 j)"
    using Cons.prems(1) visit1_static [of pixelPerfect fc i b g] v by simp
  have new: "checked (handlers g1 i) \<or>
         \<not> validForInput (handlers g1 i) (highestInputPriorityID b1) (highestRenderOrderID b1) True"
    using visit1_marks [OF _ v] Cons.prems(1) by simp
  have old: "checked (handlers g1 j) \<or>
         \<not> validForInput (handlers g1 j) (highestInputPriorityID b1) (highestRenderOrderID b1) True"
    if "j \<in> A" for j
  proof (cases "checked (handlers g j)")
    case True
    then show ?thesis using visit1_checked_mono [of g j fc i b] v by simp
  next
    case False
    then have "\<not> validForInput (handlers g j) (highestInputPriorityID b) (highestRenderOrderID b) True"
      using Cons.prems(2) that by blast
    then show ?thesis using visit1_keeps_invalid [OF _ v] by simp
  qed
  have cover: "\<forall>j\<in>insert i A. checked (handlers g1 j) \<or>
         \<not> validForInput (handlers g1 j) (highestInputPriorityID b1) (highestRenderOrderID b1) True"
    using new old by blast
  have "\<forall>j\<in>insert i A \<union> set xs. checked (handlers g' j) \<or>
             \<not> validForInput (handlers g' j) (highestInputPriorityID b') (highestRenderOrderID b') True"
    using Cons.IH [OF pp cover rest] .
  then show ?case by simp
qed

lemma pass2_noop:
  assumes "\<forall>j\<in>set xs. checked (handlers g j) \<or>
             \<not> validForInput (handlers g j) (highestInputPriorityID b) (highestRenderOrderID b) True"
  shows "pass2 fc xs (b, g) = (b, g)"
  using assms
proof (induction xs)
  case Nil
  show ?case by simp
next
  case (Cons i xs)
  have "visit2 fc i (b, g) = (b, g)" using Cons.prems by (auto simp add: visit2_def)
  then show ?case using Cons by simp
qed

lemma scan_without_exact:
  assumes "\<forall>j\<in>set (interactiveItems g). \<not> pixelPerfect (handlers g j)"
  shows "scan fc g = firstPass fc g"
proof -
  let ?g0 = "setAll_checked False g"
  obtain b1 g1 where fp: "firstPass fc g = (b1, g1)" by (cases "firstPass fc g")
  have p1: "pass1 fc (interactiveItems g) (initialBest, ?g0) = (b1, g1)"
    using fp by (simp add: firstPass_def Let_def) (simp add: setAll_checked_def)
  have pp: "\<forall>j\<in>set (interactiveItems g). \<not> pixelPerfect (handlers ?g0 j)"
    using assms by (simp add: setAll_checked_static)
  have "\<forall>j\<in>{} \<union> set (interactiveItems g). checked (handlers g1 j) \<or>
             \<not> validForInput (handlers g1 j) (highestInputPriorityID b1) (highestRenderOrderID b1) True"
    by (rule pass1_covers [OF pp _ p1]) simp
  then have "pass2 fc (interactiveItems g) (b1, g1) = (b1, g1)"
    using pass2_noop [of "interactiveItems g" g1 b1 fc] by simp
  moreover have "interactiveItems g1 = interactiveItems g"
    using firstPass_items [of fc g] fp by simp
  ultimately show ?thesis by (simp add: scan_def Let_def fp)
qed

text \<open>
  C1, as the code has it. No candidate requires the exact test. Candidate \<open>w\<close> passes
  its cheap overlap test, can beat the initial floor (priority above -1, or priority -1
  with a render order below \<open>Number.MAX_SAFE_INTEGER\<close>), and outranks every other
  candidate whose cheap overlap test succeeds: that one has a strictly lower priority,
  or the same priority and a numerically higher render order (with distinct priorities:
  a strictly lower priority). Then, whatever the traversal order, the loops find \<open>w\<close>,
  and \<open>w\<close> becomes the target, unless it was the target already and its \<open>update\<close>
  returns \<open>false\<close>, in which case the target is cleared.
\<close>

theorem resolver_selects_top_candidate:
  assumes "\<forall>j\<in>set (interactiveItems g). \<not> pixelPerfect (handlers g j)"
      and "w \<in> set (interactiveItems g)"
      and "overlaps fromClick True (handlers g w)"
      and "validForInput (handlers g w) (-1) Number_MAX_SAFE_INTEGER False"
      and "\<forall>j\<in>set (interactiveItems g). j \<noteq> w \<and> overlaps fromClick True (handlers g j) \<longrightarrow>
             priorityID (handlers g j) < priorityID (handlers g w) \<or>
             (priorityID (handlers g j) = priorityID (handlers g w) \<and>
              renderOrderID (handlers g w) < renderOrderID (handlers g j))"
  shows "highestRenderObject (fst (scan fromClick g)) = Some w \<and>
         targetObject (fst (processInteractiveObjects fromClick (p, g))) =
           (if targetObject p = Some w \<and> \<not> updateResult (handlers g w) then None else Some w)"
proof -
  have floor: "validForInput (handlers g w) (highestInputPriorityID initialBest)
                 (highestRenderOrderID initialBest) False \<or> isBest w g initialBest"
    using assms(4) by (simp add: initialBest_def)
  have "isBest w g (fold (select1 fromClick g) (interactiveItems g) initialBest)"
    using fold_select1_finds_winner [OF assms(5) floor assms(3) assms(2)] .
  then have "isBest w g (fst (scan fromClick g))"
    by (simp add: scan_without_exact [OF assms(1)] firstPass_best)
  then have found: "highestRenderObject (fst (scan fromClick g)) = Some w"
    by (simp add: isBest_def)
  have upd: "updateResult (handlers (snd (scan fromClick g)) w) = updateResult (handlers g w)"
    by (rule scan_static) simp
  have "targetObject (fst (processInteractiveObjects fromClick (p, g))) =
           (if targetObject p = Some w \<and> \<not> updateResult (handlers g w) then None else Some w)"
    by (simp add: pio_unfold fold_perform_target found resolution_def upd split: option.splits)
  then show ?thesis using found by simp
qed

lemmas resolver_simps =
  processInteractiveObjects_def scan_def firstPass_def setAll_checked_def
  visit1_def visit2_def validForInput_def overlaps_def testCall_def resolution_def
  initialBest_def Number_MAX_SAFE_INTEGER_def emit_def Let_def
  exampleGame_def exampleHandler_def Pointer_def

text \<open>
  Three candidates with priorities 1, 5 and 3 under the pointer: the one with priority
  5 becomes the target, in the traversal order 0, 1, 2 and in the order 2, 1, 0. Two
  candidates with priority 1 and render orders 5 and 2: the one with render order 2
  becomes the target.
\<close>

theorem resolver_selects_top_candidate_witness:
  "overlaps False True (exampleHandler 5 0 False True True) \<and>
   targetObject (fst (processInteractiveObjects False
     (Pointer 0, exampleGame 1000 MOUSE_TOUCH_COMBINE [0, 1, 2]
        (\<lambda>i. if i = 0 then exampleHandler 1 0 False True True
              else if i = 1 then exampleHandler 5 0 False True True
              else exampleHandler 3 0 False True True)))) = Some 1 \<and>
   targetObject (fst (processInteractiveObjects False
     (Pointer 0, exampleGame 1000 MOUSE_TOUCH_COMBINE [2, 1, 0]
        (\<lambda>i. if i = 0 then exampleHandler 1 0 False True True
              else if i = 1 then exampleHandler 5 0 False True True
              else exampleHandler 3 0 False True True)))) = Some 1 \<and>
   targetObject (fst (processInteractiveObjects False
     (Pointer 0, exampleGame 1000 MOUSE_TOUCH_COMBINE [0, 1]
        (\<lambda>i. if i = 0 then exampleHandler 1 5 False True True
              else exampleHandler 1 2 False True True)))) = Some 1"
proof -
  let ?hs = "\<lambda>i::nat. if i = 0 then exampleHandler 1 0 False True True
              else if i = 1 then exampleHandler 5 0 False True True
              else exampleHandler 3 0 False True True"
  let ?ties = "\<lambda>i::nat. if i = 0 then exampleHandler 1 5 False True True
              else exampleHandler 1 2 False True True"
  have a: "targetObject (fst (processInteractiveObjects False
             (Pointer 0, exampleGame 1000 MOUSE_TOUCH_COMBINE [0, 1, 2] ?hs))) = Some 1"
    using resolver_selects_top_candidate
      [of "exampleGame 1000 MOUSE_TOUCH_COMBINE [0, 1, 2] ?hs" 1 False "Pointer 0"]
    by (simp add: exampleGame_def exampleHandler_def overlaps_def validForInput_def
        Number_MAX_SAFE_INTEGER_def Pointer_def)
  have b: "targetObject (fst (processInteractiveObjects False
             (Pointer 0, exampleGame 1000 MOUSE_TOUCH_COMBINE [2, 1, 0] ?hs))) = Some 1"
    using resolver_selects_top_candidate
      [of "exampleGame 1000 MOUSE_TOUCH_COMBINE [2, 1, 0] ?hs" 1 False "Pointer 0"]
    by (simp add: exampleGame_def exampleHandler_def overlaps_def validForInput_def
        Number_MAX_SAFE_INTEGER_def Pointer_def)
  have c: "targetObject (fst (processInteractiveObjects False
             (Pointer 0, exampleGame 1000 MOUSE_TOUCH_COMBINE [0, 1] ?ties))) = Some 1"
    using resolver_selects_top_candidate
      [of "exampleGame 1000 MOUSE_TOUCH_COMBINE [0, 1] ?ties" 1 False "Pointer 0"]
    by (simp add: exampleGame_def exampleHandler_def overlaps_def validForInput_def
        Number_MAX_SAFE_INTEGER_def Pointer_def)
  have d: "overlaps False True (exampleHandler 5 0 False True True)"
    by (simp add: overlaps_def exampleHandler_def)
  show ?thesis using a b c d by simp
qed

text \<open>
  A single candidate with priority -2 lies under the pointer and no target results: it
  cannot beat the initial floor -1. A single candidate with priority 5 lies under the
  pointer, is the target already and returns \<open>false\<close> from its \<open>update\<close>: the target is
  cleared.
\<close>

theorem resolver_selects_counterexample:
  "overlaps False True (exampleHandler (- 2) 0 False True True) \<and>
   targetObject (fst (processInteractiveObjects False
     (Pointer 0, exampleGame 1000 MOUSE_TOUCH_COMBINE [0]
        (\<lambda>_. exampleHandler (- 2) 0 False True True)))) = None \<and>
   overlaps False True (exampleHandler 5 0 False True False) \<and>
   targetObject (fst (processInteractiveObjects False
     ((Pointer 0)\<lparr>targetObject := Some 0\<rparr>, exampleGame 1000 MOUSE_TOUCH_COMBINE [0]
        (\<lambda>_. exampleHandler 5 0 False True False)))) = None"
  by (simp add: resolver_simps)

end
